theory Spec2Isabelle
  imports Main "HOL-Library.AList"
begin

section \<open>Parsed JSON documents\<close>

text \<open>
  The manifest (\<^verbatim>\<open>modules.json\<close>) and the lock file (\<^verbatim>\<open>modules-lock.json\<close>) reach
  the program as results of \<^verbatim>\<open>JSON.parse\<close>.  An object is the list of its own
  properties in enumeration order; \<^verbatim>\<open>JSON.parse\<close> yields objects whose keys are
  distinct.  No code path looks at the value of a number, only at its type tag.
\<close>

datatype json =
    JNull
  | JBool bool
  | JNum int
  | JStr string
  | JArr "json list"
  | JObj "(string \<times> json) list"

text \<open>What the program can throw.\<close>

datatype error =
    TypeError
  | SyntaxError
  | InvalidLock "string list"
  | FetchFailed string
  | TooBig int
  | NetworkError string
  | FsError "string list"

text \<open>\<^verbatim>\<open>typeof\<close>: \<^verbatim>\<open>null\<close> and arrays are \<^verbatim>\<open>"object"\<close>.\<close>

fun typeof :: "json \<Rightarrow> string" where
  "typeof JNull = ''object''"
| "typeof (JBool b) = ''boolean''"
| "typeof (JNum n) = ''number''"
| "typeof (JStr s) = ''string''"
| "typeof (JArr xs) = ''object''"
| "typeof (JObj kvs) = ''object''"

text \<open>\<^verbatim>\<open>typeof\<close> of a property read, where \<open>None\<close> is \<^verbatim>\<open>undefined\<close>.\<close>

definition typeof_prop :: "json option \<Rightarrow> string" where
  "typeof_prop v = (case v of None \<Rightarrow> ''undefined'' | Some x \<Rightarrow> typeof x)"

text \<open>
  \<^verbatim>\<open>m["version"]\<close> and \<^verbatim>\<open>m["modules"]\<close>: reading a property of \<^verbatim>\<open>null\<close> throws a
  TypeError; an object yields its own property or \<^verbatim>\<open>undefined\<close>; booleans, numbers,
  strings and arrays have no property of either name, so the read is \<^verbatim>\<open>undefined\<close>.
\<close>

fun get_prop :: "json \<Rightarrow> string \<Rightarrow> error + json option" where
  "get_prop JNull k = Inl TypeError"
| "get_prop (JObj kvs) k = Inr (map_of kvs k)"
| "get_prop (JBool b) k = Inr None"
| "get_prop (JNum n) k = Inr None"
| "get_prop (JStr s) k = Inr None"
| "get_prop (JArr xs) k = Inr None"

text \<open>Decimal notation of an array index, the key that \<^verbatim>\<open>for..in\<close> gives it.\<close>

fun digit_char :: "nat \<Rightarrow> char" where
  "digit_char n = char_of (48 + n)"

fun index_key :: "nat \<Rightarrow> string" where
  "index_key n = (if n < 10 then [digit_char n] else index_key (n div 10) @ [digit_char (n mod 10)])"

text \<open>The enumerable own properties of a value, as \<^verbatim>\<open>for..in\<close> and \<^verbatim>\<open>Object.entries\<close>
  list them.  \<open>None\<close> is \<^verbatim>\<open>null\<close>, which \<^verbatim>\<open>for..in\<close> skips and \<^verbatim>\<open>Object.entries\<close> refuses.\<close>

fun own_props :: "json \<Rightarrow> (string \<times> json) list option" where
  "own_props JNull = None"
| "own_props (JObj kvs) = Some kvs"
| "own_props (JArr xs) = Some (zip (map index_key [0..<length xs]) xs)"
| "own_props (JBool b) = Some []"
| "own_props (JNum n) = Some []"
| "own_props (JStr s) = Some (zip (map index_key [0..<length s]) (map (\<lambda>c. JStr [c]) s))"

section \<open>Manifest validator: \<^verbatim>\<open>isDinkModules\<close>\<close>

text \<open>
  The function returns a boolean and pushes onto the caller's \<^verbatim>\<open>errors\<close> array; the
  model returns both.  \<open>Inl\<close> is an exception thrown inside the validator.
\<close>

definition check_entry :: "json \<Rightarrow> string list \<Rightarrow> error + (bool \<times> string list)" where
  \<open>check_entry m errors =
     (case get_prop m ''version'' of
        Inl e \<Rightarrow> Inl e
      | Inr ver \<Rightarrow>
          if typeof_prop ver \<noteq> ''string'' then
            Inr (False, errors @ [''"version" must be string''])
          else
            (case get_prop m ''modules'' of
               Inl e \<Rightarrow> Inl e
             | Inr (Some (JArr mods)) \<Rightarrow>
                 if \<exists>el \<in> set mods. typeof el \<noteq> ''string'' then
                   Inr (False, errors @ [''"content of "modules" must be string''])
                 else Inr (True, errors)
             | Inr _ \<Rightarrow> Inr (False, errors @ [''"modules" must be array''])))\<close>

fun check_keys :: "(string \<times> json) list \<Rightarrow> string list \<Rightarrow> error + (bool \<times> string list)" where
  "check_keys [] errors = Inr (True, errors)"
| "check_keys ((k, m) # rest) errors =
     (case check_entry m errors of
        Inl e \<Rightarrow> Inl e
      | Inr (ok, errors') \<Rightarrow> if ok then check_keys rest errors' else Inr (False, errors'))"

text \<open>
  \<^verbatim>\<open>x.hasOwnProperty(k)\<close> is looked up on \<^verbatim>\<open>x\<close> itself: a document with an own key
  \<^verbatim>\<open>hasOwnProperty\<close> shadows the method with a JSON value, and the call throws on the
  first iteration.  Otherwise every key that \<^verbatim>\<open>for..in\<close> gives is an own property.
\<close>

definition isDinkModules :: "json \<Rightarrow> string list \<Rightarrow> error + (bool \<times> string list)" where
  "isDinkModules x errors =
     (if typeof x \<noteq> ''object'' then Inr (False, errors @ [''is not object''])
      else
        (case own_props x of
           None \<Rightarrow> Inr (True, errors)
         | Some kvs \<Rightarrow>
             if ''hasOwnProperty'' \<in> set (map fst kvs) then Inl TypeError
             else check_keys kvs errors))"

section \<open>Shim text\<close>

text \<open>
  Source texts are strings of characters in the Latin-1 range; there the class
  \<^verbatim>\<open>[\s\t]\<close> is tab, line feed, vertical tab, form feed, carriage return, space and
  no-break space.
\<close>

definition is_space :: "char \<Rightarrow> bool" where
  "is_space c = (of_char c \<in> {9, 10, 11, 12, 13, 32, 160 :: nat})"

text \<open>
  \<^verbatim>\<open>/export[\s\t]*default[\s\t]/\<close> matched at the start of \<open>s\<close>.  The character after
  the run of white space must be the \<^verbatim>\<open>d\<close> of \<^verbatim>\<open>default\<close>, which is no white space, so the
  greedy star has one way to match.
\<close>

definition match_here :: "string \<Rightarrow> bool" where
  "match_here s =
     (take 6 s = ''export'' \<and>
      (let r = dropWhile is_space (drop 6 s)
       in take 7 r = ''default'' \<and> (case drop 7 r of [] \<Rightarrow> False | c # _ \<Rightarrow> is_space c)))"

text \<open>\<^verbatim>\<open>code.match(re)\<close> searches every start position.\<close>

primrec regex_search :: "string \<Rightarrow> bool" where
  "regex_search [] = match_here []"
| "regex_search (c # cs) = (match_here (c # cs) \<or> regex_search cs)"

definition hasDefaultExport :: "string \<Rightarrow> bool" where
  "hasDefaultExport code = regex_search code"

definition wildcard_line :: "string \<Rightarrow> string" where
  \<open>wildcard_line u = ''export * from "'' @ u @ ''";'' @ [CHR 0x0A]\<close>

definition default_lines :: "string \<Rightarrow> string" where
  \<open>default_lines u =
     ''import {default as dew} from "'' @ u @ ''";'' @ [CHR 0x0A] @
     ''export default dew;'' @ [CHR 0x0A]\<close>

text \<open>Lines 126 to 131 of \<^verbatim>\<open>writeLinkFile\<close>: the text written to the shim file.\<close>

definition make_link :: "string \<Rightarrow> string \<Rightarrow> string" where
  "make_link u code =
     (let link = wildcard_line u
      in if hasDefaultExport code then link @ default_lines u else link)"

text \<open>
  The claim's wording of the pattern, read token by token: \<^verbatim>\<open>export\<close>, white space (at
  least one character), \<^verbatim>\<open>default\<close>, white space, anywhere in the text.
\<close>

definition spec_export_default :: "string \<Rightarrow> bool" where
  "spec_export_default code =
     (\<exists>pre ws ws' post. code = pre @ ''export'' @ ws @ ''default'' @ ws' @ post \<and>
        ws \<noteq> [] \<and> ws' \<noteq> [] \<and> (\<forall>c \<in> set ws. is_space c) \<and> (\<forall>c \<in> set ws'. is_space c))"

text \<open>
  The language of the regular expression itself: \<^verbatim>\<open>export\<close>, any run of white space
  (also none), \<^verbatim>\<open>default\<close>, one white-space character, anywhere in the text.
\<close>

definition re_export_default :: "string \<Rightarrow> bool" where
  "re_export_default code =
     (\<exists>pre ws c post. code = pre @ ''export'' @ ws @ ''default'' @ c # post \<and>
        (\<forall>x \<in> set ws. is_space x) \<and> is_space c)"

section \<open>\<^verbatim>\<open>parseInt\<close>\<close>

text \<open>
  \<^verbatim>\<open>parseInt(s)\<close> without a radix: leading white space, an optional sign, an optional
  \<^verbatim>\<open>0x\<close> prefix that switches to radix 16, then the longest run of digits.  \<open>None\<close> is
  \<^verbatim>\<open>NaN\<close> (no digit).  The result is the mathematical integer; the program only compares
  it with \<^verbatim>\<open>10000000\<close>.
\<close>

definition digit_val :: "char \<Rightarrow> nat option" where
  "digit_val c =
     (let n = (of_char c :: nat)
      in if 48 \<le> n \<and> n \<le> 57 then Some (n - 48)
         else if 97 \<le> n \<and> n \<le> 102 then Some (n - 87)
         else if 65 \<le> n \<and> n \<le> 70 then Some (n - 55)
         else None)"

definition is_digit :: "nat \<Rightarrow> char \<Rightarrow> bool" where
  "is_digit radix c = (case digit_val c of None \<Rightarrow> False | Some d \<Rightarrow> d < radix)"

definition digits_value :: "nat \<Rightarrow> string \<Rightarrow> int" where
  "digits_value radix ds = foldl (\<lambda>a c. a * int radix + int (the (digit_val c))) 0 ds"

definition parseInt :: "string \<Rightarrow> int option" where
  "parseInt s =
     (let t = dropWhile is_space s;
          neg = (take 1 t = ''-'');
          u = (if take 1 t = ''-'' \<or> take 1 t = ''+'' then drop 1 t else t);
          hex = (take 2 u = ''0x'' \<or> take 2 u = ''0X'');
          radix = (if hex then 16 else 10);
          ds = takeWhile (is_digit radix) (if hex then drop 2 u else u)
      in if ds = [] then None
         else Some ((if neg then - 1 else 1) * digits_value radix ds))"

section \<open>File system, network and the state of a run\<close>

text \<open>
  A path is the list of components of a normalised path relative to the working
  directory; \<open>[]\<close> is the working directory itself.  A file holds either text (a shim)
  or a JSON document, which stands for its serialisation
  \<^verbatim>\<open>JSON.stringify(doc, null, "  ")\<close>: equal documents are equal bytes.
\<close>

type_synonym path = "string list"

datatype content = Text string | Json json

datatype node = Dir | File content

datatype event =
    EvFetch string
  | EvBody string
  | EvRemove path
  | EvMkdir path
  | EvWrite path
  | EvLock

record world =
  fs :: "(path \<times> node) list"
  trace :: "event list"

text \<open>The outcome of an effectful step: the state reached, and the error if one was thrown.\<close>

datatype res = Done world | Fail error world

fun world_of :: "res \<Rightarrow> world" where
  "world_of (Done w) = w"
| "world_of (Fail e w) = w"

definition log_event :: "event \<Rightarrow> world \<Rightarrow> world" where
  "log_event ev w = w\<lparr>trace := trace w @ [ev]\<rparr>"

definition node_at :: "world \<Rightarrow> path \<Rightarrow> node option" where
  "node_at w p = (if p = [] then Some Dir else map_of (fs w) p)"

text \<open>\<^verbatim>\<open>fs.exists\<close>.\<close>

definition exists_path :: "world \<Rightarrow> path \<Rightarrow> bool" where
  "exists_path w p = (node_at w p \<noteq> None)"

text \<open>\<^verbatim>\<open>path.dirname\<close> on a normalised relative path; the parent of \<^verbatim>\<open>.\<close> is \<^verbatim>\<open>.\<close>.\<close>

definition dirname :: "path \<Rightarrow> path" where
  "dirname p = butlast p"

definition children :: "world \<Rightarrow> path \<Rightarrow> path list" where
  "children w d = filter (\<lambda>q. q \<noteq> [] \<and> butlast q = d) (map fst (fs w))"

text \<open>\<^verbatim>\<open>Deno.readDir\<close>: the entries of a directory; it throws on anything else.\<close>

definition readDir :: "world \<Rightarrow> path \<Rightarrow> error + path list" where
  "readDir w d =
     (case node_at w d of Some Dir \<Rightarrow> Inr (children w d) | _ \<Rightarrow> Inl (FsError d))"

text \<open>
  \<^verbatim>\<open>Deno.remove\<close> (not recursive): removes a file or an empty directory; it throws on
  a missing path, a directory with entries, and the working directory.
\<close>

definition remove :: "path \<Rightarrow> world \<Rightarrow> res" where
  "remove p w =
     (if p = [] then Fail (FsError p) w
      else
        (case node_at w p of
           None \<Rightarrow> Fail (FsError p) w
         | Some Dir \<Rightarrow>
             if children w p \<noteq> [] then Fail (FsError p) w
             else Done (log_event (EvRemove p) (w\<lparr>fs := AList.delete p (fs w)\<rparr>))
         | Some (File c) \<Rightarrow> Done (log_event (EvRemove p) (w\<lparr>fs := AList.delete p (fs w)\<rparr>))))"

text \<open>
  \<^verbatim>\<open>Deno.mkdir(dir, true)\<close>: creates the missing directories along \<open>pre @ cs\<close>, from the
  top; a component that is a file makes it throw.
\<close>

fun mkdirs :: "path \<Rightarrow> string list \<Rightarrow> world \<Rightarrow> res" where
  "mkdirs pre [] w = Done w"
| "mkdirs pre (c # cs) w =
     (case node_at w (pre @ [c]) of
        Some (File x) \<Rightarrow> Fail (FsError (pre @ [c])) w
      | Some Dir \<Rightarrow> mkdirs (pre @ [c]) cs w
      | None \<Rightarrow>
          mkdirs (pre @ [c]) cs
            (log_event (EvMkdir (pre @ [c])) (w\<lparr>fs := AList.update (pre @ [c]) Dir (fs w)\<rparr>)))"

definition mkdir :: "path \<Rightarrow> world \<Rightarrow> res" where
  "mkdir d w = mkdirs [] d w"

text \<open>
  Opening a path for writing (create, truncate) and writing the whole content: it throws
  when the path is a directory or its parent is not one.
\<close>

definition write_file :: "path \<Rightarrow> content \<Rightarrow> event \<Rightarrow> world \<Rightarrow> res" where
  "write_file p c ev w =
     (case node_at w p of
        Some Dir \<Rightarrow> Fail (FsError p) w
      | _ \<Rightarrow>
          if node_at w (butlast p) \<noteq> Some Dir then Fail (FsError p) w
          else Done (log_event ev (w\<lparr>fs := AList.update p (File c) (fs w)\<rparr>)))"

text \<open>A response of \<^verbatim>\<open>fetch\<close>: status, the \<^verbatim>\<open>content-length\<close> header if present, the
  body text and the final URL.\<close>

record response =
  resp_status :: nat
  resp_content_length :: "string option"
  resp_body :: string
  resp_url :: string

text \<open>
  The primitives the program calls and does not define: the parts \<^verbatim>\<open>protocol\<close>,
  \<^verbatim>\<open>hostname\<close>, \<^verbatim>\<open>pathname\<close> of \<^verbatim>\<open>new URL(s)\<close> (\<open>None\<close> when it throws),
  \<^verbatim>\<open>path.join\<close> of a normalised path and one more segment, and the network
  (\<open>None\<close> is a transport failure).
\<close>

record env =
  url_parts :: "string \<Rightarrow> (string \<times> string \<times> string) option"
  join :: "path \<Rightarrow> string \<Rightarrow> path"
  fetch :: "string \<Rightarrow> response option"

text \<open>\<^verbatim>\<open>new URL(s)\<close> without a base throws on every string that has no scheme, so on
  every string without a colon.\<close>

definition URL_new :: "env \<Rightarrow> string \<Rightarrow> (string \<times> string \<times> string) option" where
  "URL_new env s = (if CHR '':'' \<in> set s then url_parts env s else None)"

text \<open>Lines 45 to 48 and 100 to 103: the directory of a host under \<^verbatim>\<open>./vendor\<close>.\<close>

definition host_dir :: "env \<Rightarrow> string \<Rightarrow> path option" where
  "host_dir env host =
     (case URL_new env host of
        None \<Rightarrow> None
      | Some (protocol, hostname, pathname) \<Rightarrow>
          (let scheme = take (length protocol - 1) protocol
           in Some (join env (join env (join env (join env [] ''./vendor'') scheme) hostname) pathname)))"

section \<open>The typed view of a validated document\<close>

record Module =
  version :: string
  modules :: "string list"

text \<open>
  \<^verbatim>\<open>v.version\<close> and \<^verbatim>\<open>v.modules\<close> of an entry that \<open>isDinkModules\<close> accepted: a string and
  an array of strings.
\<close>

fun string_items :: "json list \<Rightarrow> string list" where
  "string_items [] = []"
| "string_items (JStr s # xs) = s # string_items xs"
| "string_items (x # xs) = string_items xs"

definition as_Module :: "json \<Rightarrow> Module" where
  "as_Module m =
     \<lparr>version = (case get_prop m ''version'' of Inr (Some (JStr s)) \<Rightarrow> s | _ \<Rightarrow> []),
      modules = (case get_prop m ''modules'' of Inr (Some (JArr xs)) \<Rightarrow> string_items xs | _ \<Rightarrow> [])\<rparr>"

text \<open>\<^verbatim>\<open>Object.entries(x)\<close> of a validated document; \<open>None\<close> is the TypeError on \<^verbatim>\<open>null\<close>.\<close>

definition as_Modules :: "json \<Rightarrow> (string \<times> Module) list option" where
  "as_Modules x = map_option (map (\<lambda>(k, m). (k, as_Module m))) (own_props x)"

section \<open>Lock store\<close>

definition lock_path :: path where
  "lock_path = [''modules-lock.json'']"

text \<open>
  \<^verbatim>\<open>readLockFile\<close>: \<open>Inr None\<close> is the \<^verbatim>\<open>undefined\<close> that the function returns when the
  file does not exist.  A file that holds text and no JSON document makes
  \<^verbatim>\<open>JSON.parse\<close> throw.
\<close>

definition readLockFile :: "world \<Rightarrow> error + json option" where
  "readLockFile w =
     (if exists_path w lock_path then
        (case node_at w lock_path of
           Some (File (Json lock)) \<Rightarrow>
             (case isDinkModules lock [] of
                Inl e \<Rightarrow> Inl e
              | Inr (ok, err) \<Rightarrow> if \<not> ok then Inl (InvalidLock err) else Inr (Some lock))
         | Some (File (Text t)) \<Rightarrow> Inl SyntaxError
         | _ \<Rightarrow> Inl (FsError lock_path))
      else Inr None)"

text \<open>\<^verbatim>\<open>generateLockFile\<close>: the whole manifest, serialised, replaces the lock file.\<close>

definition generateLockFile :: "json \<Rightarrow> world \<Rightarrow> res" where
  "generateLockFile mods w = write_file lock_path (Json mods) EvLock w"

section \<open>Pruner: \<^verbatim>\<open>deleteRemovedFiles\<close>\<close>

text \<open>A \<^verbatim>\<open>Set\<close> keeps its elements in insertion order, each once.\<close>

definition Set_add :: "'a \<Rightarrow> 'a list \<Rightarrow> 'a list" where
  "Set_add x s = (if x \<in> set s then s else s @ [x])"

definition Set_new :: "'a list \<Rightarrow> 'a list" where
  "Set_new xs = fold Set_add xs []"

definition Set_delete :: "'a \<Rightarrow> 'a list \<Rightarrow> 'a list" where
  "Set_delete x s = removeAll x s"

text \<open>
  Lines 49 to 60: the paths one entry \<open>v\<close> of the lock file adds to
  \<^verbatim>\<open>removedFiles\<close>, where \<open>dir\<close> is the directory of its host and \<open>entry\<close> is
  \<^verbatim>\<open>modules[k]\<close> (\<open>None\<close> when the manifest has no such host).
\<close>

definition marked :: "env \<Rightarrow> path \<Rightarrow> Module option \<Rightarrow> Module \<Rightarrow> path list" where
  "marked env dir entry v =
     (case entry of
        None \<Rightarrow> map (join env dir) (modules v)
      | Some m \<Rightarrow> map (join env dir) (fold Set_delete (modules m) (Set_new (modules v))))"

text \<open>
  Lines 43 to 61: the list \<^verbatim>\<open>removedFiles\<close>, built over the entries of the lock file.
  The manifest is \<open>None\<close> when it is \<^verbatim>\<open>null\<close>; then \<^verbatim>\<open>modules[k]\<close> throws.
  \<^verbatim>\<open>new URL(k)\<close> throws on a key that is no URL; once it has returned, the key has a
  colon, so \<^verbatim>\<open>modules[k]\<close> is an own property or \<^verbatim>\<open>undefined\<close>.
\<close>

fun removedFiles ::
  "env \<Rightarrow> (string \<times> Module) list option \<Rightarrow> (string \<times> Module) list \<Rightarrow> error + path list" where
  "removedFiles env manifest [] = Inr []"
| "removedFiles env manifest ((k, v) # rest) =
     (case host_dir env k of
        None \<Rightarrow> Inl TypeError
      | Some dir \<Rightarrow>
          (case manifest of
             None \<Rightarrow> Inl TypeError
           | Some ms \<Rightarrow>
               (case removedFiles env manifest rest of
                  Inl e \<Rightarrow> Inl e
                | Inr others \<Rightarrow> Inr (marked env dir (map_of ms k) v @ others))))"

text \<open>
  Lines 68 to 72: the upward walk.  \<^verbatim>\<open>Deno.remove\<close> of the working directory throws,
  which is the only way the walk leaves \<open>[]\<close> when it is empty.
\<close>

function walk :: "path \<Rightarrow> world \<Rightarrow> res" where
  "walk dir w =
     (case readDir w dir of
        Inl e \<Rightarrow> Fail e w
      | Inr entries \<Rightarrow>
          if length entries = 0 then
            (if dir = [] then remove dir w
             else
               (case remove dir w of
                  Fail e w' \<Rightarrow> Fail e w'
                | Done w' \<Rightarrow> walk (dirname dir) w'))
          else Done w)"
  by pat_completeness auto
termination
  by (relation "measure (\<lambda>(dir, w). length dir)") (auto simp: dirname_def)

text \<open>Lines 63 to 74: the callback run for one marked path.\<close>

definition remove_one :: "path \<Rightarrow> world \<Rightarrow> res" where
  "remove_one i w =
     (if \<not> exists_path w i then Done w
      else
        (case remove i w of
           Fail e w' \<Rightarrow> Fail e w'
         | Done w' \<Rightarrow> walk (dirname i) w'))"

text \<open>
  \<^verbatim>\<open>Promise.all\<close> over the callbacks.  The model runs them one after the other in list
  order and stops at the first that throws; the interleaving of callbacks at their
  \<^verbatim>\<open>await\<close> points is not modelled.
\<close>

fun remove_all :: "path list \<Rightarrow> world \<Rightarrow> res" where
  "remove_all [] w = Done w"
| "remove_all (i # rest) w =
     (case remove_one i w of
        Fail e w' \<Rightarrow> Fail e w'
      | Done w' \<Rightarrow> remove_all rest w')"

text \<open>\<^verbatim>\<open>Object.entries(lockFile)\<close> throws a TypeError on \<^verbatim>\<open>undefined\<close> and on \<^verbatim>\<open>null\<close>.\<close>

definition deleteRemovedFiles :: "env \<Rightarrow> json \<Rightarrow> json option \<Rightarrow> world \<Rightarrow> res" where
  "deleteRemovedFiles env mods lockFile w =
     (case lockFile of
        None \<Rightarrow> Fail TypeError w
      | Some lock \<Rightarrow>
          (case as_Modules lock of
             None \<Rightarrow> Fail TypeError w
           | Some entries \<Rightarrow>
               (case removedFiles env (as_Modules mods) entries of
                  Inl e \<Rightarrow> Fail e w
                | Inr files \<Rightarrow> remove_all files w)))"

section \<open>Link writer: \<^verbatim>\<open>writeLinkFile\<close>\<close>

text \<open>Lines 106 to 109: \<^verbatim>\<open>lockFile && lockFile[host] && lockFile[host].version\<close>.\<close>

definition lockedVersion :: "json option \<Rightarrow> string \<Rightarrow> string \<Rightarrow> string" where
  "lockedVersion lockFile host ver =
     (case lockFile of
        None \<Rightarrow> ver
      | Some lock \<Rightarrow>
          (case as_Modules lock of
             None \<Rightarrow> ver
           | Some entries \<Rightarrow>
               (case map_of entries host of
                  None \<Rightarrow> ver
                | Some m \<Rightarrow> if version m \<noteq> [] then version m else ver)))"

text \<open>\<^verbatim>\<open>parseInt(resp.headers.get("content-length") || "0")\<close>: a missing header and an
  empty one both give \<^verbatim>\<open>"0"\<close>.\<close>

definition contentLength :: "response \<Rightarrow> int option" where
  "contentLength resp =
     parseInt (case resp_content_length resp of
                 None \<Rightarrow> ''0''
               | Some h \<Rightarrow> if h = [] then ''0'' else h)"

text \<open>\<^verbatim>\<open>contentLength > 10000000\<close>; every comparison with \<^verbatim>\<open>NaN\<close> is false.\<close>

definition too_big :: "int option \<Rightarrow> bool" where
  "too_big n = (case n of None \<Rightarrow> False | Some k \<Rightarrow> k > 10000000)"

text \<open>Lines 116 to 139: the slow path, from \<^verbatim>\<open>fetch\<close> to the write of the shim.\<close>

definition fetch_and_link :: "env \<Rightarrow> string \<Rightarrow> path \<Rightarrow> world \<Rightarrow> res" where
  "fetch_and_link env specifier modFile w =
     (let w1 = log_event (EvFetch specifier) w
      in case fetch env specifier of
           None \<Rightarrow> Fail (NetworkError specifier) w1
         | Some resp \<Rightarrow>
             if resp_status resp \<noteq> 200 then Fail (FetchFailed specifier) w1
             else if too_big (contentLength resp) then Fail (TooBig (the (contentLength resp))) w1
             else
               (let w2 = log_event (EvBody specifier) w1;
                    code = resp_body resp;
                    link = make_link (resp_url resp) code
                in case mkdir (dirname modFile) w2 of
                     Fail e w3 \<Rightarrow> Fail e w3
                   | Done w3 \<Rightarrow> write_file modFile (Text link) (EvWrite modFile) w3))"

definition writeLinkFile :: "env \<Rightarrow> string \<Rightarrow> string \<Rightarrow> json option \<Rightarrow> string \<Rightarrow> world \<Rightarrow> res" where
  "writeLinkFile env host ver lockFile md w =
     (case host_dir env host of
        None \<Rightarrow> Fail TypeError w
      | Some dir \<Rightarrow>
          (let modFile = join env dir md;
               specifier = host @ ver @ md;
               hasLink = exists_path w modFile
           in if hasLink \<and> ver = lockedVersion lockFile host ver then Done w
              else fetch_and_link env specifier modFile w))"

text \<open>\<^verbatim>\<open>Promise.all(v.modules.map(writeLinkFile(...)))\<close>, in list order as above.\<close>

fun link_all :: "env \<Rightarrow> string \<Rightarrow> string \<Rightarrow> json option \<Rightarrow> string list \<Rightarrow> world \<Rightarrow> res" where
  "link_all env host ver lockFile [] w = Done w"
| "link_all env host ver lockFile (md # rest) w =
     (case writeLinkFile env host ver lockFile md w of
        Fail e w' \<Rightarrow> Fail e w'
      | Done w' \<Rightarrow> link_all env host ver lockFile rest w')"

section \<open>Reconciler: \<^verbatim>\<open>ensure\<close>\<close>

text \<open>Lines 82 to 87: the loop over the hosts of the manifest.  The lock file is written
  in the body of the loop, after the links of each host.\<close>

fun link_hosts :: "env \<Rightarrow> json \<Rightarrow> json option \<Rightarrow> (string \<times> Module) list \<Rightarrow> world \<Rightarrow> res" where
  "link_hosts env mods lockFile [] w = Done w"
| "link_hosts env mods lockFile ((host, v) # rest) w =
     (case link_all env host (version v) lockFile (modules v) w of
        Fail e w' \<Rightarrow> Fail e w'
      | Done w' \<Rightarrow>
          (case generateLockFile mods w' of
             Fail e w'' \<Rightarrow> Fail e w''
           | Done w'' \<Rightarrow> link_hosts env mods lockFile rest w''))"

definition ensure :: "env \<Rightarrow> json \<Rightarrow> world \<Rightarrow> res" where
  "ensure env mods w =
     (case readLockFile w of
        Inl e \<Rightarrow> Fail e w
      | Inr lockFile \<Rightarrow>
          (case deleteRemovedFiles env mods lockFile w of
             Fail e w1 \<Rightarrow> Fail e w1
           | Done w1 \<Rightarrow>
               (case as_Modules mods of
                  None \<Rightarrow> Fail TypeError w1
                | Some entries \<Rightarrow> link_hosts env mods lockFile entries w1)))"

section \<open>A concrete instance of the primitives\<close>

text \<open>
  POSIX \<^verbatim>\<open>path.join\<close> of a normalised relative path and a segment, and the parts of
  a URL of the form \<^verbatim>\<open>scheme://hostname/pathname\<close>; they run the model on examples.
  A path as a list of components has no trailing slash, which \<^verbatim>\<open>path.join\<close> keeps, and
  the host name here is everything up to the first slash, a port included; the examples
  use module names without a trailing slash and hosts without a port.
\<close>

fun split_on :: "char \<Rightarrow> string \<Rightarrow> string list" where
  "split_on d [] = [[]]"
| "split_on d (c # cs) =
     (if c = d then [] # split_on d cs
      else (case split_on d cs of [] \<Rightarrow> [[c]] | x # xs \<Rightarrow> (c # x) # xs))"

definition norm_step :: "path \<Rightarrow> string \<Rightarrow> path" where
  "norm_step p c =
     (if c = [] \<or> c = ''.'' then p
      else if c = ''..'' then (if p = [] \<or> last p = ''..'' then p @ [c] else butlast p)
      else p @ [c])"

definition posix_join :: "path \<Rightarrow> string \<Rightarrow> path" where
  "posix_join p s = foldl norm_step p (split_on (CHR ''/'') s)"

definition simple_url :: "string \<Rightarrow> (string \<times> string \<times> string) option" where
  "simple_url s =
     (let scheme = takeWhile (\<lambda>c. c \<noteq> CHR '':'') s;
          r = drop (length scheme) s
      in if scheme = [] \<or> take 3 r \<noteq> ''://'' then None
         else
           (let hp = drop 3 r;
                host = takeWhile (\<lambda>c. c \<noteq> CHR ''/'') hp;
                pth = drop (length host) hp
            in if host = [] then None
               else Some (scheme @ '':'', host, if pth = [] then ''/'' else pth)))"

definition no_network :: "string \<Rightarrow> response option" where
  "no_network s = None"

definition test_env :: "(string \<Rightarrow> response option) \<Rightarrow> env" where
  "test_env net = \<lparr>url_parts = simple_url, join = posix_join, fetch = net\<rparr>"

section \<open>Notions used to state the properties\<close>

text \<open>
  The paths the claim about the pruner describes: for each host of the lock state that
  the manifest lacks, all its module paths; for each host in both, the paths of the
  modules of the lock state that the manifest no longer lists.
\<close>

definition obsolete :: "env \<Rightarrow> (string \<times> Module) list \<Rightarrow> (string \<times> Module) list \<Rightarrow> path set" where
  "obsolete env ms lock =
     (\<Union>(k, v) \<in> set lock.
        case host_dir env k of
          None \<Rightarrow> {}
        | Some dir \<Rightarrow>
            (case map_of ms k of
               None \<Rightarrow> join env dir ` set (modules v)
             | Some m \<Rightarrow> join env dir ` (set (modules v) - set (modules m))))"

text \<open>
  No two hosts of the lock state resolve a module to the same path: whenever a module of
  one entry and a module of another have the same resolved path, the two entries have
  the same host.
\<close>

definition resolve_apart :: "env \<Rightarrow> (string \<times> Module) list \<Rightarrow> bool" where
  "resolve_apart env lock =
     (\<forall>(k, v) \<in> set lock. \<forall>(k', v') \<in> set lock. \<forall>dir dir'.
        host_dir env k = Some dir \<and> host_dir env k' = Some dir' \<longrightarrow>
        (\<forall>i \<in> set (modules v). \<forall>i' \<in> set (modules v').
           join env dir i = join env dir' i' \<longrightarrow> k = k'))"

text \<open>The path \<open>p\<close> and its ancestors down to depth \<open>k + 1\<close>, deepest first.\<close>

definition chain :: "path \<Rightarrow> nat \<Rightarrow> path list" where
  "chain p k = map (\<lambda>j. take j p) (rev [Suc k ..< Suc (length p)])"

fun is_Done :: "res \<Rightarrow> bool" where
  "is_Done (Done w) = True"
| "is_Done (Fail e w) = False"

text \<open>The specifiers fetched, and the number of writes of the lock file, in a trace.\<close>

definition fetches :: "event list \<Rightarrow> string list" where
  "fetches t = concat (map (\<lambda>ev. case ev of EvFetch s \<Rightarrow> [s] | _ \<Rightarrow> []) t)"

definition lock_writes :: "event list \<Rightarrow> nat" where
  "lock_writes t = length (filter (\<lambda>ev. ev = EvLock) t)"

section \<open>Example documents, networks and states\<close>

definition json_entry :: "string \<Rightarrow> string list \<Rightarrow> json" where
  "json_entry v ms = JObj [(''version'', JStr v), (''modules'', JArr (map JStr ms))]"

definition manifest_one :: json where
  "manifest_one = JObj [(''https://a.com/x/'', json_entry ''v1'' [''/m.ts''])]"

definition manifest_two :: json where
  "manifest_two =
     JObj [(''https://a.com/x/'', json_entry ''v1'' [''/m.ts'']),
           (''https://b.com/'', json_entry ''v1'' [''/n.ts''])]"

definition response_ok :: "string option \<Rightarrow> string \<Rightarrow> response" where
  "response_ok len s =
     \<lparr>resp_status = 200, resp_content_length = len,
      resp_body = ''export const a = 1;'', resp_url = s\<rparr>"

definition net_big :: "string \<Rightarrow> response option" where
  "net_big s = Some (response_ok (Some ''10000001'') s)"

definition net_plain :: "string \<Rightarrow> response option" where
  "net_plain s = Some (response_ok None s)"

text \<open>A network that serves \<^verbatim>\<open>a.com\<close> and answers 404 for everything else.\<close>

definition net_a_only :: "string \<Rightarrow> response option" where
  "net_a_only s =
     (if take 14 s = ''https://a.com/'' then Some (response_ok None s)
      else Some \<lparr>resp_status = 404, resp_content_length = None, resp_body = [], resp_url = s\<rparr>)"

text \<open>
  A lock state with the hosts \<^verbatim>\<open>https://a.com/x/\<close> and \<^verbatim>\<open>https://a.com/x\<close>, which have
  the same directory under \<^verbatim>\<open>vendor\<close>, and a manifest that keeps the first as it is and
  drops the second.
\<close>

definition shared_lock :: "(string \<times> Module) list" where
  "shared_lock =
     [(''https://a.com/x/'', \<lparr>version = ''v1'', modules = [''/m.ts'']\<rparr>),
      (''https://a.com/x'', \<lparr>version = ''v1'', modules = [''/m.ts'']\<rparr>)]"

definition shared_manifest :: "(string \<times> Module) list" where
  "shared_manifest = [(''https://a.com/x/'', \<lparr>version = ''v1'', modules = [''/m.ts'']\<rparr>)]"

text \<open>A lock state of three hosts and a manifest that drops a module of the first, drops
  the second host, and changes only the version of the third.\<close>

definition three_lock :: "(string \<times> Module) list" where
  "three_lock =
     [(''https://a.com/x/'', \<lparr>version = ''v1'', modules = [''/a.ts'', ''/b.ts'']\<rparr>),
      (''https://b.com/'', \<lparr>version = ''v1'', modules = [''/n.ts'']\<rparr>),
      (''https://c.com/'', \<lparr>version = ''v1'', modules = [''/k.ts'']\<rparr>)]"

definition three_manifest :: "(string \<times> Module) list" where
  "three_manifest =
     [(''https://a.com/x/'', \<lparr>version = ''v2'', modules = [''/b.ts'']\<rparr>),
      (''https://c.com/'', \<lparr>version = ''v9'', modules = [''/k.ts'']\<rparr>)]"

definition empty_world :: world where
  "empty_world = \<lparr>fs = [], trace = []\<rparr>"

text \<open>A working directory with an empty lock file \<^verbatim>\<open>{}\<close> and nothing else.\<close>

definition fresh_world :: world where
  "fresh_world = \<lparr>fs = [(lock_path, File (Json (JObj [])))], trace = []\<rparr>"

text \<open>The state after \<open>manifest_one\<close> has been linked: its lock file and one shim.\<close>

definition linked_world :: world where
  "linked_world =
     \<lparr>fs = [(lock_path, File (Json manifest_one)),
            ([''vendor''], Dir),
            ([''vendor'', ''https''], Dir),
            ([''vendor'', ''https'', ''a.com''], Dir),
            ([''vendor'', ''https'', ''a.com'', ''x''], Dir),
            ([''vendor'', ''https'', ''a.com'', ''x'', ''m.ts''],
             File (Text (wildcard_line ''https://a.com/x/v1/m.ts'')))],
      trace = []\<rparr>"

section \<open>Properties of the validator\<close>

lemma isDinkModules_not_object:
  "typeof x \<noteq> ''object'' \<Longrightarrow> isDinkModules x errors = Inr (False, errors @ [''is not object''])"
  by (simp add: isDinkModules_def)

lemma isDinkModules_primitive:
  "isDinkModules (JBool b) errors = Inr (False, errors @ [''is not object''])"
  "isDinkModules (JNum n) errors = Inr (False, errors @ [''is not object''])"
  "isDinkModules (JStr s) errors = Inr (False, errors @ [''is not object''])"
  by (simp_all add: isDinkModules_def)

lemma isDinkModules_empty_object: "isDinkModules (JObj []) errors = Inr (True, errors)"
  by (simp add: isDinkModules_def)

text \<open>An entry that passes pushes no message.\<close>

lemma check_entry_ok:
  "check_entry m errors = Inr (True, errors') \<Longrightarrow> errors' = errors"
  by (auto simp: check_entry_def split: sum.splits option.splits json.splits if_splits)

text \<open>
  The loop over the keys stops at the first entry that fails: the entries after it are
  not looked at, and the result carries the message of that entry alone.
\<close>

lemma check_keys_first_violation:
  assumes "\<forall>(k', m') \<in> set pre. check_entry m' errors = Inr (True, errors)"
    and "check_entry m errors = Inr (False, errors')"
  shows "check_keys (pre @ (k, m) # rest) errors = Inr (False, errors')"
  using assms by (induction pre) auto

text \<open>What makes an entry that is an object fail, in the order of the tests.\<close>

lemma check_entry_object:
  \<open>check_entry (JObj e) errors =
     (if \<not> (\<exists>s. map_of e ''version'' = Some (JStr s)) then
        Inr (False, errors @ [''"version" must be string''])
      else if \<not> (\<exists>xs. map_of e ''modules'' = Some (JArr xs)) then
        Inr (False, errors @ [''"modules" must be array''])
      else if \<exists>x \<in> set (case map_of e ''modules'' of Some (JArr xs) \<Rightarrow> xs | _ \<Rightarrow> []).
                \<not> (\<exists>s. x = JStr s) then
        Inr (False, errors @ [''"content of "modules" must be string''])
      else Inr (True, errors))\<close>
proof -
  have str: "(typeof x = ''string'') = (\<exists>s. x = JStr s)" for x
    by (cases x) simp_all
  show ?thesis
    by (auto simp: check_entry_def typeof_prop_def str split: option.splits json.splits)
qed

text \<open>An entry that is \<^verbatim>\<open>null\<close> makes the validator throw instead of returning.\<close>

lemma isDinkModules_null_entry: "isDinkModules (JObj [(k, JNull)]) errors = Inl TypeError"
  by (simp add: isDinkModules_def check_entry_def)

text \<open>
  C7.  The validator is meant to reject every top-level value that is no object, and
  the claim names \<^verbatim>\<open>null\<close> and arrays among them.  \<^verbatim>\<open>typeof null\<close> and \<^verbatim>\<open>typeof []\<close>
  are both \<^verbatim>\<open>"object"\<close>, so the test of line 16 lets them through: \<^verbatim>\<open>null\<close> has no key to
  enumerate and the empty array has none either, and the validator returns \<^verbatim>\<open>true\<close>
  without an error message for both.
\<close>

theorem isDinkModules_accepts_null_and_array:
  "isDinkModules JNull [] = Inr (True, []) \<and> isDinkModules (JArr []) [] = Inr (True, [])"
  by (simp add: isDinkModules_def)

section \<open>Properties of the shim text\<close>

lemma not_space_d: "\<not> is_space (CHR ''d'')"
  by (simp add: is_space_def)

lemma match_here_intro:
  assumes "\<forall>x \<in> set ws. is_space x" and "is_space c"
  shows "match_here (''export'' @ ws @ ''default'' @ c # post)"
proof -
  have "dropWhile is_space (ws @ ''default'' @ c # post) = ''default'' @ c # post"
    using assms(1) not_space_d by (simp add: dropWhile_append2)
  then show ?thesis
    using assms(2) by (simp add: match_here_def)
qed

lemma match_here_elim:
  assumes "match_here s"
  shows "\<exists>ws c post. s = ''export'' @ ws @ ''default'' @ c # post \<and>
           (\<forall>x \<in> set ws. is_space x) \<and> is_space c"
proof -
  let ?r = "dropWhile is_space (drop 6 s)"
  from assms have a: "take 6 s = ''export''" and b: "take 7 ?r = ''default''"
    and c: "(case drop 7 ?r of [] \<Rightarrow> False | c # _ \<Rightarrow> is_space c)"
    by (simp_all add: match_here_def Let_def)
  from c obtain ch post where d: "drop 7 ?r = ch # post" and e: "is_space ch"
    by (cases "drop 7 ?r") auto
  have "s = take 6 s @ drop 6 s" by simp
  also have "drop 6 s = takeWhile is_space (drop 6 s) @ ?r" by simp
  also have "?r = take 7 ?r @ drop 7 ?r" by simp
  finally have "s = ''export'' @ takeWhile is_space (drop 6 s) @ ''default'' @ ch # post"
    using a b d by simp
  moreover have "\<forall>x \<in> set (takeWhile is_space (drop 6 s)). is_space x"
    by (auto dest: set_takeWhileD)
  ultimately show ?thesis using e by blast
qed

lemma regex_search_append: "regex_search t \<Longrightarrow> regex_search (pre @ t)"
  by (induction pre) auto

lemma regex_search_start: "match_here s \<Longrightarrow> regex_search s"
  by (cases s) auto

lemma regex_search_elim: "regex_search s \<Longrightarrow> \<exists>pre t. s = pre @ t \<and> match_here t"
proof (induction s)
  case Nil
  then show ?case by auto
next
  case (Cons c cs)
  show ?case
  proof (cases "match_here (c # cs)")
    case True
    then show ?thesis by (metis append_Nil)
  next
    case False
    with Cons.prems have "regex_search cs" by simp
    with Cons.IH obtain pre t where "cs = pre @ t" "match_here t" by blast
    then have "c # cs = (c # pre) @ t" by simp
    then show ?thesis using \<open>match_here t\<close> by blast
  qed
qed

text \<open>The search function decides the language of the regular expression.\<close>

lemma hasDefaultExport_iff: "hasDefaultExport code = re_export_default code"
proof
  assume "hasDefaultExport code"
  then have "regex_search code" by (simp add: hasDefaultExport_def)
  from regex_search_elim[OF this] obtain pre t where "code = pre @ t" "match_here t"
    by blast
  then show "re_export_default code"
    using match_here_elim[of t] by (auto simp: re_export_default_def)
next
  assume "re_export_default code"
  then obtain pre ws c post where
    "code = pre @ ''export'' @ ws @ ''default'' @ c # post"
    "\<forall>x \<in> set ws. is_space x" "is_space c"
    by (auto simp: re_export_default_def)
  then show "hasDefaultExport code"
    unfolding hasDefaultExport_def
    using regex_search_append[OF regex_search_start[OF match_here_intro]] by blast
qed

text \<open>A text with the claim's pattern is in the language of the regular expression.\<close>

lemma spec_pattern_matches:
  assumes "spec_export_default code"
  shows "re_export_default code"
proof -
  from assms obtain pre ws ws' post where
    h: "code = pre @ ''export'' @ ws @ ''default'' @ ws' @ post" "ws' \<noteq> []"
       "\<forall>c \<in> set ws. is_space c" "\<forall>c \<in> set ws'. is_space c"
    by (auto simp: spec_export_default_def)
  then obtain c r where "ws' = c # r" by (cases ws') auto
  with h show ?thesis
    unfolding re_export_default_def
    by (intro exI[of _ pre] exI[of _ ws] exI[of _ c] exI[of _ "r @ post"]) auto
qed

text \<open>
  C8, as the claim states it, fails in its second half.  The text \<^verbatim>\<open>exportdefault \<close>
  has no white space between the two words, so it does not contain the sequence
  \<^verbatim>\<open>export\<close>, white space, \<^verbatim>\<open>default\<close>, white space; the regular expression allows
  an empty run there, and the shim gets the default re-export all the same.
\<close>

theorem make_link_exportdefault_counterexample:
  "\<not> spec_export_default ''exportdefault '' \<and>
   make_link ''U'' ''exportdefault '' = wildcard_line ''U'' @ default_lines ''U''"
proof
  show "\<not> spec_export_default ''exportdefault ''"
  proof
    assume "spec_export_default ''exportdefault ''"
    then obtain pre ws ws' post where
      h: "''exportdefault '' = pre @ ''export'' @ ws @ ''default'' @ ws' @ post"
         "ws \<noteq> []" "ws' \<noteq> []"
      by (auto simp: spec_export_default_def)
    then have "length ''exportdefault '' =
               length (pre @ ''export'' @ ws @ ''default'' @ ws' @ post)"
      by simp
    moreover have "length ws \<ge> 1" "length ws' \<ge> 1"
      using h by (simp_all add: Suc_leI)
    ultimately show False by simp
  qed
  show "make_link ''U'' ''exportdefault '' = wildcard_line ''U'' @ default_lines ''U''"
    by (simp add: make_link_def hasDefaultExport_def match_here_def is_space_def)
qed

text \<open>
  C8, amended.  For every fetched source text and resolved URL \<open>u\<close>: if the text
  contains \<^verbatim>\<open>export\<close>, a run of white space that may be empty, \<^verbatim>\<open>default\<close> and one
  white-space character, the shim is the wildcard re-export line followed by the two
  lines of the aliasing default re-export; otherwise it is the wildcard line alone.
  Every text with the claim's own pattern (at least one white-space character between
  the words) is among the first.
\<close>

theorem make_link_default_export:
  "make_link u code =
     (if re_export_default code then wildcard_line u @ default_lines u else wildcard_line u)
   \<and> (spec_export_default code \<longrightarrow> make_link u code = wildcard_line u @ default_lines u)"
  using spec_pattern_matches[of code] by (auto simp: make_link_def hasDefaultExport_iff)

theorem make_link_default_export_witness:
  "make_link ''U'' ''export default 1'' = wildcard_line ''U'' @ default_lines ''U'' \<and>
   make_link ''U'' ''let x'' = wildcard_line ''U''"
proof -
  have "''export default 1'' = [] @ ''export'' @ '' '' @ ''default'' @ CHR '' '' # ''1''"
    by simp
  moreover have "is_space (CHR '' '')" by (simp add: is_space_def)
  ultimately have a: "re_export_default ''export default 1''"
    unfolding re_export_default_def
    by (intro exI[of _ "[]"] exI[of _ "'' ''"] exI[of _ "CHR '' ''"] exI[of _ "''1''"]) simp
  have b: "\<not> re_export_default ''let x''"
    unfolding hasDefaultExport_iff[symmetric]
    by (simp add: hasDefaultExport_def match_here_def)
  show ?thesis
    using make_link_default_export[of "''U''" "''export default 1''"]
          make_link_default_export[of "''U''" "''let x''"] a b
    by simp
qed

section \<open>Properties of the file system operations\<close>

lemma fs_log_event [simp]: "fs (log_event ev w) = fs w"
  by (simp add: log_event_def)

lemma trace_log_event [simp]: "trace (log_event ev w) = trace w @ [ev]"
  by (simp add: log_event_def)

lemma node_at_log_event [simp]: "node_at (log_event ev w) p = node_at w p"
  by (simp add: node_at_def log_event_def)

lemma node_at_Nil [simp]: "node_at w [] = Some Dir"
  by (simp add: node_at_def)

lemma node_at_update:
  "node_at (w\<lparr>fs := AList.update p n (fs w)\<rparr>) q =
     (if q = [] then Some Dir else if q = p then Some n else node_at w q)"
  by (simp add: node_at_def update_conv')

lemma node_at_delete:
  "node_at (w\<lparr>fs := AList.delete p (fs w)\<rparr>) q =
     (if q = [] then Some Dir else if q = p then None else node_at w q)"
  by (simp add: node_at_def delete_conv')

text \<open>After \<open>mkdirs\<close> every directory on the way is there, and nothing else has changed.\<close>

lemma mkdirs_Done:
  "mkdirs pre cs w = Done w' \<Longrightarrow>
   node_at w' p =
     (if \<exists>j. 1 \<le> j \<and> j \<le> length cs \<and> p = pre @ take j cs then Some Dir else node_at w p)"
proof (induction cs arbitrary: pre w)
  case Nil
  then show ?case by auto
next
  case (Cons c cs)
  let ?p1 = "pre @ [c]"
  have idx: "(\<exists>j. 1 \<le> j \<and> j \<le> length (c # cs) \<and> p = pre @ take j (c # cs)) =
             (p = ?p1 \<or> (\<exists>j. 1 \<le> j \<and> j \<le> length cs \<and> p = ?p1 @ take j cs))"
  proof
    assume "\<exists>j. 1 \<le> j \<and> j \<le> length (c # cs) \<and> p = pre @ take j (c # cs)"
    then obtain j where j: "1 \<le> j" "j \<le> length (c # cs)" "p = pre @ take j (c # cs)" by blast
    then obtain i where i: "j = Suc i" by (cases j) auto
    show "p = ?p1 \<or> (\<exists>j. 1 \<le> j \<and> j \<le> length cs \<and> p = ?p1 @ take j cs)"
    proof (cases i)
      case 0
      with i j show ?thesis by simp
    next
      case (Suc k)
      with i j have "1 \<le> i \<and> i \<le> length cs \<and> p = ?p1 @ take i cs" by simp
      then show ?thesis by blast
    qed
  next
    assume "p = ?p1 \<or> (\<exists>j. 1 \<le> j \<and> j \<le> length cs \<and> p = ?p1 @ take j cs)"
    then show "\<exists>j. 1 \<le> j \<and> j \<le> length (c # cs) \<and> p = pre @ take j (c # cs)"
    proof
      assume "p = ?p1"
      then have "1 \<le> (1::nat) \<and> 1 \<le> length (c # cs) \<and> p = pre @ take 1 (c # cs)" by simp
      then show ?thesis by blast
    next
      assume "\<exists>j. 1 \<le> j \<and> j \<le> length cs \<and> p = ?p1 @ take j cs"
      then obtain j where "1 \<le> j" "j \<le> length cs" "p = ?p1 @ take j cs" by blast
      then have "1 \<le> Suc j \<and> Suc j \<le> length (c # cs) \<and> p = pre @ take (Suc j) (c # cs)"
        by simp
      then show ?thesis by blast
    qed
  qed
  have notself: "\<not> (\<exists>j. 1 \<le> j \<and> j \<le> length cs \<and> ?p1 = ?p1 @ take j cs)"
    by (cases cs) auto
  show ?case
  proof (cases "node_at w ?p1")
    case None
    let ?w1 = "log_event (EvMkdir ?p1) (w\<lparr>fs := AList.update ?p1 Dir (fs w)\<rparr>)"
    from None Cons.prems have "mkdirs ?p1 cs ?w1 = Done w'" by simp
    from Cons.IH[OF this] have
      "node_at w' p =
         (if \<exists>j. 1 \<le> j \<and> j \<le> length cs \<and> p = ?p1 @ take j cs then Some Dir
          else node_at ?w1 p)" .
    then show ?thesis
      unfolding idx using None by (auto simp: node_at_update)
  next
    case (Some n)
    show ?thesis
    proof (cases n)
      case Dir
      with Some Cons.prems have "mkdirs ?p1 cs w = Done w'" by simp
      from Cons.IH[OF this] show ?thesis
        unfolding idx using Some Dir notself by auto
    next
      case (File x)
      with Some Cons.prems show ?thesis by simp
    qed
  qed
qed

text \<open>\<open>mkdirs\<close> returns whenever no component on the way is a file.\<close>

lemma mkdirs_succeeds:
  "(\<And>j x. 1 \<le> j \<Longrightarrow> j \<le> length cs \<Longrightarrow> node_at w (pre @ take j cs) \<noteq> Some (File x)) \<Longrightarrow>
   \<exists>w'. mkdirs pre cs w = Done w'"
proof (induction cs arbitrary: pre w)
  case Nil
  then show ?case by simp
next
  case (Cons c cs)
  let ?p1 = "pre @ [c]"
  have first: "node_at w ?p1 \<noteq> Some (File x)" for x
    using Cons.prems[of 1 x] by simp
  have later: "node_at w (?p1 @ take j cs) \<noteq> Some (File x)" if "1 \<le> j" "j \<le> length cs" for j x
    using Cons.prems[of "Suc j" x] that by simp
  show ?case
  proof (cases "node_at w ?p1")
    case None
    let ?w1 = "log_event (EvMkdir ?p1) (w\<lparr>fs := AList.update ?p1 Dir (fs w)\<rparr>)"
    have "node_at ?w1 (?p1 @ take j cs) \<noteq> Some (File x)" if "1 \<le> j" "j \<le> length cs" for j x
      using later[OF that] by (auto simp: node_at_update)
    from Cons.IH[of ?w1 ?p1, OF this] None show ?thesis by simp
  next
    case (Some n)
    show ?thesis
    proof (cases n)
      case Dir
      from Cons.IH[of w ?p1, OF later] Some Dir show ?thesis by simp
    next
      case (File x)
      with Some first show ?thesis by simp
    qed
  qed
qed

lemma write_file_Done:
  "write_file p c ev w = Done w' \<Longrightarrow>
   w' = log_event ev (w\<lparr>fs := AList.update p (File c) (fs w)\<rparr>) \<and> p \<noteq> []"
  by (auto simp: write_file_def split: option.splits node.splits if_splits)

lemma write_file_succeeds:
  "node_at w p \<noteq> Some Dir \<Longrightarrow> node_at w (butlast p) = Some Dir \<Longrightarrow>
   write_file p c ev w = Done (log_event ev (w\<lparr>fs := AList.update p (File c) (fs w)\<rparr>))"
  by (auto simp: write_file_def split: option.splits node.splits)

lemma remove_Done:
  "remove p w = Done w' \<Longrightarrow>
   p \<noteq> [] \<and> fs w' = AList.delete p (fs w) \<and> trace w' = trace w @ [EvRemove p]"
  by (auto simp: remove_def split: if_splits option.splits node.splits)

lemma children_delete:
  "set (children (w\<lparr>fs := AList.delete p (fs w)\<rparr>) d) = set (children w d) - {p}"
  by (auto simp: children_def AList.delete_eq)

lemma take_butlast_le:
  "p \<noteq> [] \<Longrightarrow> j \<le> length (butlast p) \<Longrightarrow> take j (butlast p) = take j p"
  by (cases p rule: rev_cases) auto

lemma butlast_neq: "q \<noteq> [] \<Longrightarrow> butlast q \<noteq> q"
  by (cases q rule: rev_cases) auto

section \<open>Properties of the link writer\<close>

lemma parseInt_Nil: "parseInt [] = None"
  by (simp add: parseInt_def)

lemma parseInt_zero: "parseInt ''0'' = Some 0"
  by (simp add: parseInt_def is_space_def is_digit_def digit_val_def digits_value_def Let_def)

lemma host_dir_example:
  "host_dir (test_env net) ''https://a.com/x/'' = Some [''vendor'', ''https'', ''a.com'', ''x'']"
  by (simp add: host_dir_def URL_new_def test_env_def simple_url_def posix_join_def
      norm_step_def Let_def)

text \<open>
  C9.  When \<open>writeLinkFile\<close> fetches (the host is a URL and the fast path does not
  apply) and the response declares a \<^verbatim>\<open>content-length\<close> that \<^verbatim>\<open>parseInt\<close> reads as a
  number above 10,000,000, the invocation throws.  The state it leaves is the state
  before plus the one fetch event: the body has not been read, no directory was made
  and no shim was written.  With status 200 the error is the size error.
\<close>

theorem writeLinkFile_too_big:
  assumes "host_dir env host = Some dir"
    and "\<not> (exists_path w (join env dir md) \<and> ver = lockedVersion lockFile host ver)"
    and "fetch env (host @ ver @ md) = Some resp"
    and "resp_content_length resp = Some h"
    and "parseInt h = Some n"
    and "n > 10000000"
  shows "\<exists>e. writeLinkFile env host ver lockFile md w =
               Fail e (w\<lparr>trace := trace w @ [EvFetch (host @ ver @ md)]\<rparr>) \<and>
             (resp_status resp = 200 \<longrightarrow> e = TooBig n)"
proof -
  from assms(5) have "h \<noteq> []" using parseInt_Nil by auto
  with assms(4,5) have cl: "contentLength resp = Some n"
    by (simp add: contentLength_def)
  with assms(6) have big: "too_big (contentLength resp)"
    by (simp add: too_big_def)
  have "writeLinkFile env host ver lockFile md w =
        fetch_and_link env (host @ ver @ md) (join env dir md) w"
    using assms(1,2) by (auto simp: writeLinkFile_def Let_def)
  then show ?thesis
    using assms(3) cl big by (auto simp: fetch_and_link_def Let_def log_event_def)
qed

theorem writeLinkFile_too_big_witness:
  "writeLinkFile (test_env net_big) ''https://a.com/x/'' ''v1'' None ''/m.ts'' empty_world =
     Fail (TooBig 10000001) \<lparr>fs = [], trace = [EvFetch ''https://a.com/x/v1/m.ts'']\<rparr>"
proof -
  note 1 = host_dir_example[of net_big]
  have 2: "\<not> (exists_path empty_world
                 (join (test_env net_big) [''vendor'', ''https'', ''a.com'', ''x''] ''/m.ts'')
              \<and> ''v1'' = lockedVersion None ''https://a.com/x/'' ''v1'')"
    by (simp add: exists_path_def node_at_def empty_world_def test_env_def posix_join_def
        norm_step_def)
  have 3: "fetch (test_env net_big) (''https://a.com/x/'' @ ''v1'' @ ''/m.ts'') =
             Some (response_ok (Some ''10000001'') ''https://a.com/x/v1/m.ts'')"
    by (simp add: test_env_def net_big_def)
  have 4: "resp_content_length (response_ok (Some ''10000001'') ''https://a.com/x/v1/m.ts'') =
             Some ''10000001''"
    by (simp add: response_ok_def)
  have 5: "parseInt ''10000001'' = Some 10000001"
    by (simp add: parseInt_def is_space_def is_digit_def digit_val_def digits_value_def Let_def)
  have 6: "(10000001::int) > 10000000" by simp
  from writeLinkFile_too_big[OF 1 2 3 4 5 6]
  show ?thesis by (simp add: empty_world_def response_ok_def)
qed

text \<open>
  C10.  When \<open>writeLinkFile\<close> fetches and the response has status 200 and either no
  \<^verbatim>\<open>content-length\<close> header or one that \<^verbatim>\<open>parseInt\<close> reads as \<^verbatim>\<open>NaN\<close>, the declared
  length is 0 (header missing or empty) or \<^verbatim>\<open>NaN\<close>, the guard does not fire, and the
  invocation goes on to read the body, make the directory and write the shim, whatever
  the body is: no hypothesis constrains \<open>resp_body resp\<close>.  The last conjunct says when
  the write goes through: no component of the directory is a file and the target is not
  a directory; then the shim file holds the generated text.
\<close>

theorem writeLinkFile_no_declared_length:
  assumes dir: "host_dir env host = Some dir"
    and slow: "\<not> (exists_path w (join env dir md) \<and> ver = lockedVersion lockFile host ver)"
    and resp: "fetch env (host @ ver @ md) = Some resp"
    and ok: "resp_status resp = 200"
    and hdr: "resp_content_length resp = None \<or>
              (\<exists>h. resp_content_length resp = Some h \<and> parseInt h = None)"
  shows "contentLength resp =
           (if resp_content_length resp = None \<or> resp_content_length resp = Some []
            then Some 0 else None) \<and>
         \<not> too_big (contentLength resp) \<and>
         writeLinkFile env host ver lockFile md w =
           (case mkdir (dirname (join env dir md))
                   (w\<lparr>trace := trace w @ [EvFetch (host @ ver @ md), EvBody (host @ ver @ md)]\<rparr>) of
              Fail e w3 \<Rightarrow> Fail e w3
            | Done w3 \<Rightarrow>
                write_file (join env dir md) (Text (make_link (resp_url resp) (resp_body resp)))
                  (EvWrite (join env dir md)) w3) \<and>
         ((\<forall>j x. 1 \<le> j \<and> j \<le> length (dirname (join env dir md)) \<longrightarrow>
             node_at w (take j (dirname (join env dir md))) \<noteq> Some (File x)) \<and>
          join env dir md \<noteq> [] \<and> node_at w (join env dir md) \<noteq> Some Dir \<longrightarrow>
          (\<exists>w'. writeLinkFile env host ver lockFile md w = Done w' \<and>
                node_at w' (join env dir md) =
                  Some (File (Text (make_link (resp_url resp) (resp_body resp))))))"
proof -
  let ?s = "host @ ver @ md" and ?f = "join env dir md"
  let ?link = "make_link (resp_url resp) (resp_body resp)"
  let ?w2 = "w\<lparr>trace := trace w @ [EvFetch ?s, EvBody ?s]\<rparr>"
  have cl: "contentLength resp =
           (if resp_content_length resp = None \<or> resp_content_length resp = Some []
            then Some 0 else None)"
    using hdr parseInt_zero by (auto simp: contentLength_def)
  then have nb: "\<not> too_big (contentLength resp)"
    by (simp add: too_big_def)
  have "writeLinkFile env host ver lockFile md w = fetch_and_link env ?s ?f w"
    using dir slow by (auto simp: writeLinkFile_def Let_def)
  then have eq: "writeLinkFile env host ver lockFile md w =
           (case mkdir (dirname ?f) ?w2 of
              Fail e w3 \<Rightarrow> Fail e w3
            | Done w3 \<Rightarrow> write_file ?f (Text ?link) (EvWrite ?f) w3)"
    using resp ok nb by (simp add: fetch_and_link_def Let_def log_event_def)
  have written: "\<exists>w'. writeLinkFile env host ver lockFile md w = Done w' \<and>
                   node_at w' ?f = Some (File (Text ?link))"
    if a: "(\<forall>j x. 1 \<le> j \<and> j \<le> length (dirname ?f) \<longrightarrow>
               node_at w (take j (dirname ?f)) \<noteq> Some (File x)) \<and>
           ?f \<noteq> [] \<and> node_at w ?f \<noteq> Some Dir"
  proof -
    have same: "node_at ?w2 p = node_at w p" for p
      by (simp add: node_at_def)
    have "\<exists>w3. mkdirs [] (dirname ?f) ?w2 = Done w3"
      by (rule mkdirs_succeeds) (use a same in auto)
    then obtain w3 where m: "mkdir (dirname ?f) ?w2 = Done w3"
      by (auto simp: mkdir_def)
    then have n3: "node_at w3 p =
        (if \<exists>j. 1 \<le> j \<and> j \<le> length (dirname ?f) \<and> p = [] @ take j (dirname ?f)
         then Some Dir else node_at ?w2 p)" for p
      unfolding mkdir_def by (rule mkdirs_Done)
    have parent: "node_at w3 (butlast ?f) = Some Dir"
    proof (cases "butlast ?f = []")
      case True
      then show ?thesis by simp
    next
      case False
      then have "0 < length (butlast ?f)" by blast
      then have "1 \<le> length (dirname ?f) \<and> length (dirname ?f) \<le> length (dirname ?f) \<and>
                 butlast ?f = [] @ take (length (dirname ?f)) (dirname ?f)"
        by (simp add: dirname_def)
      then show ?thesis using n3[of "butlast ?f"] by metis
    qed
    have notdir: "node_at w3 ?f \<noteq> Some Dir"
    proof -
      have "\<not> (\<exists>j. 1 \<le> j \<and> j \<le> length (dirname ?f) \<and> ?f = [] @ take j (dirname ?f))"
      proof
        assume "\<exists>j. 1 \<le> j \<and> j \<le> length (dirname ?f) \<and> ?f = [] @ take j (dirname ?f)"
        then obtain j where "?f = take j (butlast ?f)" by (auto simp: dirname_def)
        then have "length ?f = length (take j (butlast ?f))" by simp
        moreover have "length (take j (butlast ?f)) \<le> length ?f - 1" by simp
        moreover have "0 < length ?f" using a by blast
        ultimately show False by arith
      qed
      then show ?thesis using n3[of ?f] same a by simp
    qed
    from write_file_succeeds[OF notdir parent] m eq show ?thesis
      using a by (simp add: node_at_update)
  qed
  from cl nb eq written show ?thesis by blast
qed

theorem writeLinkFile_no_declared_length_witness:
  "contentLength (response_ok None ''https://a.com/x/v1/m.ts'') = Some 0 \<and>
   writeLinkFile (test_env net_plain) ''https://a.com/x/'' ''v1'' None ''/m.ts'' empty_world =
     Done \<lparr>fs = [([''vendor''], Dir),
                 ([''vendor'', ''https''], Dir),
                 ([''vendor'', ''https'', ''a.com''], Dir),
                 ([''vendor'', ''https'', ''a.com'', ''x''], Dir),
                 ([''vendor'', ''https'', ''a.com'', ''x'', ''m.ts''],
                  File (Text (wildcard_line ''https://a.com/x/v1/m.ts'')))],
           trace = [EvFetch ''https://a.com/x/v1/m.ts'', EvBody ''https://a.com/x/v1/m.ts'',
                    EvMkdir [''vendor''], EvMkdir [''vendor'', ''https''],
                    EvMkdir [''vendor'', ''https'', ''a.com''],
                    EvMkdir [''vendor'', ''https'', ''a.com'', ''x''],
                    EvWrite [''vendor'', ''https'', ''a.com'', ''x'', ''m.ts'']]\<rparr>"
proof -
  let ?r = "response_ok None ''https://a.com/x/v1/m.ts''"
  let ?d = "[''vendor'', ''https'', ''a.com'', ''x'']"
  note 1 = host_dir_example[of net_plain]
  have 2: "\<not> (exists_path empty_world (join (test_env net_plain) ?d ''/m.ts'')
              \<and> ''v1'' = lockedVersion None ''https://a.com/x/'' ''v1'')"
    by (simp add: exists_path_def node_at_def empty_world_def test_env_def posix_join_def
        norm_step_def)
  have 3: "fetch (test_env net_plain) (''https://a.com/x/'' @ ''v1'' @ ''/m.ts'') = Some ?r"
    by (simp add: test_env_def net_plain_def)
  have 4: "resp_status ?r = 200" by (simp add: response_ok_def)
  have 5: "resp_content_length ?r = None \<or>
           (\<exists>h. resp_content_length ?r = Some h \<and> parseInt h = None)"
    by (simp add: response_ok_def)
  have run: "(case mkdir (dirname (join (test_env net_plain) ?d ''/m.ts''))
                (empty_world\<lparr>trace := trace empty_world @
                   [EvFetch (''https://a.com/x/'' @ ''v1'' @ ''/m.ts''),
                    EvBody (''https://a.com/x/'' @ ''v1'' @ ''/m.ts'')]\<rparr>) of
              Fail e w3 \<Rightarrow> Fail e w3
            | Done w3 \<Rightarrow>
                write_file (join (test_env net_plain) ?d ''/m.ts'')
                  (Text (make_link (resp_url ?r) (resp_body ?r)))
                  (EvWrite (join (test_env net_plain) ?d ''/m.ts'')) w3) =
     Done \<lparr>fs = [([''vendor''], Dir),
                 ([''vendor'', ''https''], Dir),
                 ([''vendor'', ''https'', ''a.com''], Dir),
                 ([''vendor'', ''https'', ''a.com'', ''x''], Dir),
                 ([''vendor'', ''https'', ''a.com'', ''x'', ''m.ts''],
                  File (Text (wildcard_line ''https://a.com/x/v1/m.ts'')))],
           trace = [EvFetch ''https://a.com/x/v1/m.ts'', EvBody ''https://a.com/x/v1/m.ts'',
                    EvMkdir [''vendor''], EvMkdir [''vendor'', ''https''],
                    EvMkdir [''vendor'', ''https'', ''a.com''],
                    EvMkdir [''vendor'', ''https'', ''a.com'', ''x''],
                    EvWrite [''vendor'', ''https'', ''a.com'', ''x'', ''m.ts'']]\<rparr>"
    by code_simp
  from writeLinkFile_no_declared_length[OF 1 2 3 4 5] run
  show ?thesis by (simp add: response_ok_def)
qed

section \<open>Properties of the pruner\<close>

lemma set_Set_add: "set (Set_add x s) = insert x (set s)"
  by (auto simp: Set_add_def)

lemma set_fold_Set_add: "set (fold Set_add xs s) = set xs \<union> set s"
  by (induction xs arbitrary: s) (auto simp: set_Set_add)

lemma set_Set_new: "set (Set_new xs) = set xs"
  by (simp add: Set_new_def set_fold_Set_add)

lemma set_fold_Set_delete: "set (fold Set_delete ys s) = set s - set ys"
  by (induction ys arbitrary: s) (auto simp: Set_delete_def)

lemma set_marked:
  "set (marked env dir entry v) =
     (case entry of
        None \<Rightarrow> join env dir ` set (modules v)
      | Some m \<Rightarrow> join env dir ` (set (modules v) - set (modules m)))"
  by (simp add: marked_def set_fold_Set_delete set_Set_new split: option.splits)

lemma marked_unchanged:
  assumes "set (modules v) \<subseteq> set (modules m)"
  shows "marked env dir (Some m) v = []"
proof -
  have "set (marked env dir (Some m) v) = {}"
    using assms by (auto simp: set_marked)
  then show ?thesis by simp
qed

lemma removedFiles_set:
  "removedFiles env (Some ms) lock = Inr files \<Longrightarrow> set files = obsolete env ms lock"
proof (induction lock arbitrary: files)
  case Nil
  then show ?case by (simp add: obsolete_def)
next
  case (Cons kv lock)
  obtain k v where kv: "kv = (k, v)" by (cases kv)
  from Cons.prems kv obtain dir others where
    d: "host_dir env k = Some dir" and
    r: "removedFiles env (Some ms) lock = Inr others" and
    f: "files = marked env dir (map_of ms k) v @ others"
    by (auto split: option.splits sum.splits)
  from Cons.IH[OF r] have "set others = obsolete env ms lock" .
  then show ?case
    using kv d f by (auto simp: obsolete_def set_marked split: option.splits)
qed

lemma removedFiles_total:
  "(\<And>k v. (k, v) \<in> set lock \<Longrightarrow> host_dir env k \<noteq> None) \<Longrightarrow>
   \<exists>files. removedFiles env (Some ms) lock = Inr files"
proof (induction lock)
  case Nil
  then show ?case by simp
next
  case (Cons kv lock)
  obtain k v where kv: "kv = (k, v)" by (cases kv)
  from Cons.prems[of k v] kv obtain dir where "host_dir env k = Some dir" by auto
  moreover from Cons.IH Cons.prems obtain others where
    "removedFiles env (Some ms) lock = Inr others" by auto
  ultimately show ?case using kv by simp
qed

lemma map_of_reversion:
  "map_of (map (\<lambda>(k, m). (k, m\<lparr>version := f k\<rparr>)) ms) k =
     map_option (\<lambda>m. m\<lparr>version := f k\<rparr>) (map_of ms k)"
  by (induction ms) auto

lemma marked_version:
  "marked env dir (map_option (\<lambda>m. m\<lparr>version := a\<rparr>) entry) (v\<lparr>version := b\<rparr>) =
   marked env dir entry v"
  by (cases entry) (simp_all add: marked_def)

lemma removedFiles_version:
  "removedFiles env (Some (map (\<lambda>(k, m). (k, m\<lparr>version := f k\<rparr>)) ms))
      (map (\<lambda>(k, v). (k, v\<lparr>version := g k\<rparr>)) lock) =
   removedFiles env (Some ms) lock"
  by (induction lock)
     (auto simp: map_of_reversion marked_version split: option.splits sum.splits)

text \<open>A path is marked only on account of an entry of the lock state that has a module
  the manifest no longer lists for its host.\<close>

lemma obsolete_origin:
  assumes "p \<in> obsolete env ms lock"
  shows "\<exists>(k', v') \<in> set lock. \<exists>dir' i'.
           host_dir env k' = Some dir' \<and> i' \<in> set (modules v') \<and>
           (\<forall>m'. map_of ms k' = Some m' \<longrightarrow> i' \<notin> set (modules m')) \<and>
           p = join env dir' i'"
proof -
  from assms obtain k' v' where kv: "(k', v') \<in> set lock" and
    p: "p \<in> (case host_dir env k' of
                None \<Rightarrow> {}
              | Some dir \<Rightarrow>
                  (case map_of ms k' of
                     None \<Rightarrow> join env dir ` set (modules v')
                   | Some m \<Rightarrow> join env dir ` (set (modules v') - set (modules m))))"
    by (auto simp: obsolete_def)
  from p obtain dir' where d: "host_dir env k' = Some dir'"
    by (cases "host_dir env k'") auto
  have "\<exists>i'. i' \<in> set (modules v') \<and>
             (\<forall>m'. map_of ms k' = Some m' \<longrightarrow> i' \<notin> set (modules m')) \<and> p = join env dir' i'"
    using p d by (cases "map_of ms k'") auto
  with kv d show ?thesis by blast
qed

lemma distinct_keys_same_value:
  "distinct (map fst xs) \<Longrightarrow> (k, v) \<in> set xs \<Longrightarrow> (k, v') \<in> set xs \<Longrightarrow> v = v'"
  by (metis map_of_is_SomeI option.inject)

text \<open>With distinct keys, a path of an unchanged host that is marked is marked on account
  of another host.\<close>

lemma marked_by_other_host:
  assumes dist: "distinct (map fst lock)" and kv: "(k, v) \<in> set lock"
    and m: "map_of ms k = Some m" and same: "modules m = modules v"
    and inf: "join env dir i \<in> obsolete env ms lock"
  shows "\<exists>(k', v') \<in> set lock. \<exists>dir' i'.
           k' \<noteq> k \<and> host_dir env k' = Some dir' \<and> i' \<in> set (modules v') \<and>
           (\<forall>m'. map_of ms k' = Some m' \<longrightarrow> i' \<notin> set (modules m')) \<and>
           join env dir' i' = join env dir i"
proof -
  from obsolete_origin[OF inf] obtain kv' where
    kv': "kv' \<in> set lock" and
    c: "case kv' of (k', v') \<Rightarrow> \<exists>dir' i'.
           host_dir env k' = Some dir' \<and> i' \<in> set (modules v') \<and>
           (\<forall>m'. map_of ms k' = Some m' \<longrightarrow> i' \<notin> set (modules m')) \<and>
           join env dir i = join env dir' i'"
    by (rule bexE)
  obtain k' v' where e: "kv' = (k', v')" by (cases kv')
  from c e obtain dir' i' where
    d': "host_dir env k' = Some dir'" and i': "i' \<in> set (modules v')" and
    gone: "\<forall>m'. map_of ms k' = Some m' \<longrightarrow> i' \<notin> set (modules m')" and
    eq: "join env dir i = join env dir' i'"
    by auto
  have ne: "k' \<noteq> k"
  proof
    assume k: "k' = k"
    from kv' e k have "(k, v') \<in> set lock" by simp
    from distinct_keys_same_value[OF dist this kv] have "v' = v" .
    moreover from gone m k have "i' \<notin> set (modules m)" by simp
    ultimately show False using i' same by simp
  qed
  have "case (k', v') of (k', v') \<Rightarrow> \<exists>dir' i'.
           k' \<noteq> k \<and> host_dir env k' = Some dir' \<and> i' \<in> set (modules v') \<and>
           (\<forall>m'. map_of ms k' = Some m' \<longrightarrow> i' \<notin> set (modules m')) \<and>
           join env dir' i' = join env dir i"
    using ne d' i' gone eq by auto
  with kv' e show ?thesis by (intro bexI[of _ "(k', v')"]) simp_all
qed

text \<open>When no two hosts resolve a module to the same path, no path of an unchanged host
  is marked.\<close>

lemma unchanged_not_marked:
  assumes dist: "distinct (map fst lock)" and ra: "resolve_apart env lock"
    and kv: "(k, v) \<in> set lock" and i: "i \<in> set (modules v)"
    and m: "map_of ms k = Some m" and same: "modules m = modules v"
    and d: "host_dir env k = Some dir"
  shows "join env dir i \<notin> obsolete env ms lock"
proof
  assume "join env dir i \<in> obsolete env ms lock"
  from marked_by_other_host[OF dist kv m same this] obtain kv' where
    kv': "kv' \<in> set lock" and
    c: "case kv' of (k', v') \<Rightarrow> \<exists>dir' i'.
           k' \<noteq> k \<and> host_dir env k' = Some dir' \<and> i' \<in> set (modules v') \<and>
           (\<forall>m'. map_of ms k' = Some m' \<longrightarrow> i' \<notin> set (modules m')) \<and>
           join env dir' i' = join env dir i"
    by (rule bexE)
  obtain k' v' where e: "kv' = (k', v')" by (cases kv')
  from c e obtain dir' i' where
    ne: "k' \<noteq> k" and d': "host_dir env k' = Some dir'" and i': "i' \<in> set (modules v')" and
    eq: "join env dir' i' = join env dir i"
    by auto
  from ra have
    "\<forall>(k, v) \<in> set lock. \<forall>(k', v') \<in> set lock. \<forall>dir dir'.
        host_dir env k = Some dir \<and> host_dir env k' = Some dir' \<longrightarrow>
        (\<forall>i \<in> set (modules v). \<forall>i' \<in> set (modules v').
           join env dir i = join env dir' i' \<longrightarrow> k = k')"
    by (simp only: resolve_apart_def)
  with kv have
    "\<forall>(k', v') \<in> set lock. \<forall>dir dir'.
        host_dir env k = Some dir \<and> host_dir env k' = Some dir' \<longrightarrow>
        (\<forall>i \<in> set (modules v). \<forall>i' \<in> set (modules v').
           join env dir i = join env dir' i' \<longrightarrow> k = k')"
    by fast
  with kv' e have
    "\<forall>dir dir'.
        host_dir env k = Some dir \<and> host_dir env k' = Some dir' \<longrightarrow>
        (\<forall>i \<in> set (modules v). \<forall>i' \<in> set (modules v').
           join env dir i = join env dir' i' \<longrightarrow> k = k')"
    by fast
  with d d' i i' eq[symmetric] have "k = k'" by blast
  with ne show False by simp
qed


text \<open>
  C5, as the claim states it, fails in its last clause.  In \<open>shared_lock\<close> the hosts
  \<^verbatim>\<open>https://a.com/x/\<close> and \<^verbatim>\<open>https://a.com/x\<close> both have the directory
  \<^verbatim>\<open>vendor/https/a.com/x\<close>.  The manifest keeps the first host with its module list
  unchanged and drops the second; the pruner marks \<^verbatim>\<open>vendor/https/a.com/x/m.ts\<close> on
  account of the second, and that path is the shim of the first, unchanged host.
\<close>

theorem removedFiles_marks_shared_path:
  "removedFiles (test_env no_network) (Some shared_manifest) shared_lock =
     Inr [[''vendor'', ''https'', ''a.com'', ''x'', ''m.ts'']] \<and>
   (''https://a.com/x/'', \<lparr>version = ''v1'', modules = [''/m.ts'']\<rparr>) \<in> set shared_lock \<and>
   map_of shared_manifest ''https://a.com/x/'' =
     Some \<lparr>version = ''v1'', modules = [''/m.ts'']\<rparr> \<and>
   host_dir (test_env no_network) ''https://a.com/x/'' =
     Some [''vendor'', ''https'', ''a.com'', ''x''] \<and>
   join (test_env no_network) [''vendor'', ''https'', ''a.com'', ''x''] ''/m.ts'' =
     [''vendor'', ''https'', ''a.com'', ''x'', ''m.ts'']"
  by code_simp

text \<open>
  C5, amended.  For every manifest \<open>ms\<close> and lock state \<open>lock\<close> whose hosts are URLs, the
  pruner computes its list \<open>files\<close> of marked paths, and
  \<^item> the set of these paths is exactly \<open>obsolete env ms lock\<close>: all module paths of each
    host that the manifest lacks, and for each host in both the paths of
    \<open>lockState[host].modules\<close> minus \<open>manifest[host].modules\<close>;
  \<^item> replacing every version string, in the manifest by \<open>f\<close> and in the lock state by
    \<open>g\<close>, gives the same list, so a difference in versions alone marks nothing;
  \<^item> a host whose module list is the same in both contributes no path;
  \<^item> when the keys of the lock state are distinct, a file of such an unchanged host is
    among the marked paths only if another host of the lock state has a module that the
    manifest no longer lists for it and that resolves to the same path;
  \<^item> so when, besides, no two hosts of the lock state resolve a module to the same path,
    no file of an unchanged host is marked.
\<close>

theorem removedFiles_exact:
  assumes "\<forall>(k, v) \<in> set lock. host_dir env k \<noteq> None"
  shows "\<exists>files. removedFiles env (Some ms) lock = Inr files \<and>
           set files = obsolete env ms lock \<and>
           removedFiles env (Some (map (\<lambda>(k, m). (k, m\<lparr>version := f k\<rparr>)) ms))
              (map (\<lambda>(k, v). (k, v\<lparr>version := g k\<rparr>)) lock) = Inr files \<and>
           (\<forall>dir m v. modules m = modules v \<longrightarrow> marked env dir (Some m) v = []) \<and>
           (distinct (map fst lock) \<longrightarrow>
              (\<forall>(k, v) \<in> set lock. \<forall>m dir. \<forall>i \<in> set (modules v).
                 map_of ms k = Some m \<and> modules m = modules v \<and> host_dir env k = Some dir \<and>
                 join env dir i \<in> set files \<longrightarrow>
                 (\<exists>(k', v') \<in> set lock. \<exists>dir' i'.
                    k' \<noteq> k \<and> host_dir env k' = Some dir' \<and> i' \<in> set (modules v') \<and>
                    (\<forall>m'. map_of ms k' = Some m' \<longrightarrow> i' \<notin> set (modules m')) \<and>
                    join env dir' i' = join env dir i))) \<and>
           (distinct (map fst lock) \<and> resolve_apart env lock \<longrightarrow>
              (\<forall>(k, v) \<in> set lock. \<forall>m dir. \<forall>i \<in> set (modules v).
                 map_of ms k = Some m \<and> modules m = modules v \<and> host_dir env k = Some dir \<longrightarrow>
                 join env dir i \<notin> set files))"
proof -
  from assms have "host_dir env k \<noteq> None" if "(k, v) \<in> set lock" for k v
    using that by auto
  then have "\<exists>files. removedFiles env (Some ms) lock = Inr files"
    by (rule removedFiles_total)
  then obtain files where
    r: "removedFiles env (Some ms) lock = Inr files" by (rule exE)
  have s: "set files = obsolete env ms lock"
    using removedFiles_set[OF r] .
  have ver: "removedFiles env (Some (map (\<lambda>(k, m). (k, m\<lparr>version := f k\<rparr>)) ms))
              (map (\<lambda>(k, v). (k, v\<lparr>version := g k\<rparr>)) lock) = Inr files"
    using r removedFiles_version[of env f ms g lock] by simp
  have own: "\<forall>dir m v. modules m = modules v \<longrightarrow> marked env dir (Some m) v = []"
    by (simp add: marked_unchanged)
  have fourth:
    "distinct (map fst lock) \<longrightarrow>
       (\<forall>(k, v) \<in> set lock. \<forall>m dir. \<forall>i \<in> set (modules v).
          map_of ms k = Some m \<and> modules m = modules v \<and> host_dir env k = Some dir \<and>
          join env dir i \<in> set files \<longrightarrow>
          (\<exists>(k', v') \<in> set lock. \<exists>dir' i'.
             k' \<noteq> k \<and> host_dir env k' = Some dir' \<and> i' \<in> set (modules v') \<and>
             (\<forall>m'. map_of ms k' = Some m' \<longrightarrow> i' \<notin> set (modules m')) \<and>
             join env dir' i' = join env dir i))"
  proof (intro impI ballI)
    fix kv
    assume dist: "distinct (map fst lock)" and kv: "kv \<in> set lock"
    obtain k v where e: "kv = (k, v)" by (cases kv)
    have "\<forall>m dir. \<forall>i \<in> set (modules v).
          map_of ms k = Some m \<and> modules m = modules v \<and> host_dir env k = Some dir \<and>
          join env dir i \<in> set files \<longrightarrow>
          (\<exists>(k', v') \<in> set lock. \<exists>dir' i'.
             k' \<noteq> k \<and> host_dir env k' = Some dir' \<and> i' \<in> set (modules v') \<and>
             (\<forall>m'. map_of ms k' = Some m' \<longrightarrow> i' \<notin> set (modules m')) \<and>
             join env dir' i' = join env dir i)"
    proof (intro allI ballI impI, elim conjE)
      fix m dir i
      assume "map_of ms k = Some m" "modules m = modules v" "join env dir i \<in> set files"
      then show "\<exists>(k', v') \<in> set lock. \<exists>dir' i'.
             k' \<noteq> k \<and> host_dir env k' = Some dir' \<and> i' \<in> set (modules v') \<and>
             (\<forall>m'. map_of ms k' = Some m' \<longrightarrow> i' \<notin> set (modules m')) \<and>
             join env dir' i' = join env dir i"
        using marked_by_other_host[OF dist kv[unfolded e], of ms m env dir i] s by simp
    qed
    then show "case kv of (k, v) \<Rightarrow> \<forall>m dir. \<forall>i \<in> set (modules v).
          map_of ms k = Some m \<and> modules m = modules v \<and> host_dir env k = Some dir \<and>
          join env dir i \<in> set files \<longrightarrow>
          (\<exists>(k', v') \<in> set lock. \<exists>dir' i'.
             k' \<noteq> k \<and> host_dir env k' = Some dir' \<and> i' \<in> set (modules v') \<and>
             (\<forall>m'. map_of ms k' = Some m' \<longrightarrow> i' \<notin> set (modules m')) \<and>
             join env dir' i' = join env dir i)"
      unfolding e by (simp only: prod.case)
  qed
  have fifth:
    "distinct (map fst lock) \<and> resolve_apart env lock \<longrightarrow>
       (\<forall>(k, v) \<in> set lock. \<forall>m dir. \<forall>i \<in> set (modules v).
          map_of ms k = Some m \<and> modules m = modules v \<and> host_dir env k = Some dir \<longrightarrow>
          join env dir i \<notin> set files)"
  proof (intro impI ballI, elim conjE)
    fix kv
    assume dist: "distinct (map fst lock)" and ra: "resolve_apart env lock"
      and kv: "kv \<in> set lock"
    obtain k v where e: "kv = (k, v)" by (cases kv)
    have "\<forall>m dir. \<forall>i \<in> set (modules v).
          map_of ms k = Some m \<and> modules m = modules v \<and> host_dir env k = Some dir \<longrightarrow>
          join env dir i \<notin> set files"
    proof (intro allI ballI impI, elim conjE)
      fix m dir i
      assume "i \<in> set (modules v)" "map_of ms k = Some m" "modules m = modules v"
        "host_dir env k = Some dir"
      from unchanged_not_marked[OF dist ra kv[unfolded e] this]
      show "join env dir i \<notin> set files" unfolding s .
    qed
    then show "case kv of (k, v) \<Rightarrow> \<forall>m dir. \<forall>i \<in> set (modules v).
          map_of ms k = Some m \<and> modules m = modules v \<and> host_dir env k = Some dir \<longrightarrow>
          join env dir i \<notin> set files"
      unfolding e by (simp only: prod.case)
  qed
  show ?thesis
    by (rule exI[of _ files]) (intro conjI r s ver own fourth fifth)
qed

theorem removedFiles_exact_witness:
  "\<exists>files.
     removedFiles (test_env no_network) (Some three_manifest) three_lock = Inr files \<and>
     set files = obsolete (test_env no_network) three_manifest three_lock \<and>
     files = [[''vendor'', ''https'', ''a.com'', ''x'', ''a.ts''],
              [''vendor'', ''https'', ''b.com'', ''n.ts'']] \<and>
     [''vendor'', ''https'', ''c.com'', ''k.ts''] \<notin> set files"
proof -
  let ?env = "test_env no_network"
  have h: "\<forall>(k, v) \<in> set three_lock. host_dir ?env k \<noteq> None"
    by (simp add: three_lock_def host_dir_def URL_new_def test_env_def simple_url_def Let_def)
  have v: "removedFiles ?env (Some three_manifest) three_lock =
             Inr [[''vendor'', ''https'', ''a.com'', ''x'', ''a.ts''],
                  [''vendor'', ''https'', ''b.com'', ''n.ts'']]"
    by code_simp
  from removedFiles_exact[OF h, of three_manifest "\<lambda>k. []" "\<lambda>k. []"]
  show ?thesis
  proof (elim exE conjE)
    fix files
    assume r: "removedFiles ?env (Some three_manifest) three_lock = Inr files"
      and s: "set files = obsolete ?env three_manifest three_lock"
    from r v have f: "files = [[''vendor'', ''https'', ''a.com'', ''x'', ''a.ts''],
                               [''vendor'', ''https'', ''b.com'', ''n.ts'']]"
      by simp
    then have n: "[''vendor'', ''https'', ''c.com'', ''k.ts''] \<notin> set files" by simp
    show ?thesis
      by (rule exI[of _ files]) (intro conjI r s f n)
  qed
qed

lemma chain_full [simp]: "chain p (length p) = []"
  by (simp add: chain_def)

lemma chain_step:
  assumes "p \<noteq> []" and "k \<le> length (butlast p)"
  shows "chain p k = p # chain (butlast p) k"
proof -
  have "0 < length p" using assms(1) by blast
  have kl: "Suc k \<le> length p"
    using assms by (cases p rule: rev_cases) auto
  have "[Suc k ..< Suc (length p)] = [Suc k ..< length p] @ [length p]"
    using kl by (rule upt_Suc_append)
  then have "chain p k = p # map (\<lambda>j. take j p) (rev [Suc k ..< length p])"
    by (simp add: chain_def)
  moreover have "map (\<lambda>j. take j p) (rev [Suc k ..< length p]) =
                 map (\<lambda>j. take j (butlast p)) (rev [Suc k ..< length p])"
    using assms(1) by (intro map_cong) (auto simp: take_butlast_le)
  moreover have "Suc (length (butlast p)) = length p"
    using \<open>0 < length p\<close> by simp
  ultimately show ?thesis unfolding chain_def by metis
qed

text \<open>
  One step of the cleanup: \<open>p\<close> is removed, and the walk from its parent has removed the
  ancestors above depth \<open>k\<close>.
\<close>

lemma cleanup_step:
  assumes r: "remove p w = Done w1"
    and k: "k \<le> length (dirname p)"
    and fs': "fs w' = fold AList.delete (chain (dirname p) k) (fs w1)"
    and tr': "trace w' = trace w1 @ map EvRemove (chain (dirname p) k)"
    and ch: "\<forall>j. k < j \<and> j \<le> length (dirname p) \<longrightarrow>
               set (children w1 (take j (dirname p))) \<subseteq> {take (Suc j) (dirname p)}"
    and stop: "children w' (take k (dirname p)) \<noteq> []"
  shows "k < length p \<and>
         fs w' = fold AList.delete (chain p k) (fs w) \<and>
         trace w' = trace w @ map EvRemove (chain p k) \<and>
         (\<forall>j. k < j \<and> j < length p \<longrightarrow> set (children w (take j p)) \<subseteq> {take (Suc j) p}) \<and>
         children w' (take k p) \<noteq> []"
proof -
  from remove_Done[OF r] have
    nonempty: "p \<noteq> []" and
    f1: "fs w1 = AList.delete p (fs w)" and t1: "trace w1 = trace w @ [EvRemove p]"
    by auto
  have kb: "k \<le> length (butlast p)" using k by (simp add: dirname_def)
  have kl: "k < length p"
    using kb nonempty by (cases p rule: rev_cases) auto
  have c: "chain p k = p # chain (dirname p) k"
    using chain_step[OF nonempty kb] by (simp add: dirname_def)
  have w1c: "set (children w1 d) = set (children w d) - {p}" for d
  proof -
    have "children w1 d = children (w\<lparr>fs := AList.delete p (fs w)\<rparr>) d"
      using f1 by (simp add: children_def)
    then show ?thesis by (simp add: children_delete)
  qed
  have cond: "set (children w (take j p)) \<subseteq> {take (Suc j) p}"
    if j: "k < j" "j < length p" for j
  proof -
    from j have jl: "j \<le> length (dirname p)" by (simp add: dirname_def)
    then have tk: "take j (dirname p) = take j p"
      using nonempty by (simp add: dirname_def take_butlast_le)
    from ch j jl have "set (children w1 (take j (dirname p))) \<subseteq> {take (Suc j) (dirname p)}"
      by blast
    then have sub: "set (children w1 (take j p)) \<subseteq> {take (Suc j) (dirname p)}"
      unfolding tk .
    show ?thesis
    proof (cases "Suc j \<le> length (dirname p)")
      case True
      then have "take (Suc j) (dirname p) = take (Suc j) p"
        using nonempty by (simp add: dirname_def take_butlast_le del: take_Suc)
      moreover have "p \<notin> set (children w (take j p))"
      proof
        assume "p \<in> set (children w (take j p))"
        then have "butlast p = take j p" by (auto simp: children_def)
        then have "length (butlast p) = length (take j p)" by simp
        with True jl show False by (simp add: dirname_def)
      qed
      ultimately show ?thesis using sub w1c[of "take j p"] by auto
    next
      case False
      with jl have je: "j = length (dirname p)" by simp
      then have "take (Suc j) (dirname p) = dirname p" by simp
      moreover have "take j p = dirname p"
        using je by (simp add: dirname_def butlast_conv_take)
      moreover have "dirname p \<notin> set (children w1 (dirname p))"
      proof
        assume "dirname p \<in> set (children w1 (dirname p))"
        then have "dirname p \<noteq> []" "butlast (dirname p) = dirname p"
          by (auto simp: children_def)
        then show False using butlast_neq by blast
      qed
      moreover have "take (Suc j) p = p"
        using je by (simp add: dirname_def)
      ultimately show ?thesis using sub w1c[of "dirname p"] by auto
    qed
  qed
  have tk: "take k (dirname p) = take k p"
    using kb nonempty by (simp add: dirname_def take_butlast_le)
  show ?thesis
    using kl c fs' tr' f1 t1 cond stop tk by simp
qed

text \<open>
  The walk from \<open>d\<close> removes \<open>d\<close> and its ancestors above some depth \<open>k\<close>, each of them
  empty when its turn comes, and returns at the ancestor of depth \<open>k\<close>, which has an entry.
\<close>

lemma walk_chain:
  "walk d w = Done w' \<Longrightarrow>
   \<exists>k \<le> length d.
     fs w' = fold AList.delete (chain d k) (fs w) \<and>
     trace w' = trace w @ map EvRemove (chain d k) \<and>
     (\<forall>j. k < j \<and> j \<le> length d \<longrightarrow> set (children w (take j d)) \<subseteq> {take (Suc j) d}) \<and>
     children w' (take k d) \<noteq> []"
proof (induction d w rule: walk.induct)
  case (1 dir w)
  show ?case
  proof (cases "readDir w dir")
    case (Inl e)
    with "1.prems" show ?thesis by (simp add: walk.simps[of dir w])
  next
    case (Inr entries)
    then have ent: "entries = children w dir"
      by (auto simp: readDir_def split: option.splits node.splits)
    show ?thesis
    proof (cases "length entries = 0")
      case False
      with Inr "1.prems" have "w' = w" by (simp add: walk.simps[of dir w])
      with False ent have
        "fs w' = fold AList.delete (chain dir (length dir)) (fs w) \<and>
         trace w' = trace w @ map EvRemove (chain dir (length dir)) \<and>
         (\<forall>j. length dir < j \<and> j \<le> length dir \<longrightarrow>
              set (children w (take j dir)) \<subseteq> {take (Suc j) dir}) \<and>
         children w' (take (length dir) dir) \<noteq> []"
        by auto
      then show ?thesis by blast
    next
      case True
      show ?thesis
      proof (cases "dir = []")
        case t: True
        with True Inr "1.prems" show ?thesis
          by (simp add: walk.simps[of dir w] remove_def)
      next
        case nonempty: False
        from True nonempty Inr "1.prems" obtain w1 where
          r: "remove dir w = Done w1" and rest: "walk (dirname dir) w1 = Done w'"
          by (auto simp: walk.simps[of dir w] split: res.splits)
        from "1.IH"[OF Inr True nonempty r rest] obtain k where
          k: "k \<le> length (dirname dir)" and
          fs': "fs w' = fold AList.delete (chain (dirname dir) k) (fs w1)" and
          tr': "trace w' = trace w1 @ map EvRemove (chain (dirname dir) k)" and
          ch: "\<forall>j. k < j \<and> j \<le> length (dirname dir) \<longrightarrow>
                 set (children w1 (take j (dirname dir))) \<subseteq> {take (Suc j) (dirname dir)}" and
          stop: "children w' (take k (dirname dir)) \<noteq> []"
          by blast
        from cleanup_step[OF r k fs' tr' ch stop] have
          a: "k < length dir" and
          b: "fs w' = fold AList.delete (chain dir k) (fs w)" and
          c: "trace w' = trace w @ map EvRemove (chain dir k)" and
          d: "\<forall>j. k < j \<and> j < length dir \<longrightarrow>
                set (children w (take j dir)) \<subseteq> {take (Suc j) dir}" and
          e: "children w' (take k dir) \<noteq> []"
          by blast+
        have "set (children w (take j dir)) \<subseteq> {take (Suc j) dir}"
          if "k < j" "j \<le> length dir" for j
        proof (cases "j = length dir")
          case True
          with ent \<open>length entries = 0\<close> show ?thesis by simp
        next
          case False
          with that d show ?thesis by simp
        qed
        with a b c e have
          "k \<le> length dir \<and>
           fs w' = fold AList.delete (chain dir k) (fs w) \<and>
           trace w' = trace w @ map EvRemove (chain dir k) \<and>
           (\<forall>j. k < j \<and> j \<le> length dir \<longrightarrow>
                set (children w (take j dir)) \<subseteq> {take (Suc j) dir}) \<and>
           children w' (take k dir) \<noteq> []"
          by simp
        then show ?thesis by blast
      qed
    qed
  qed
qed

text \<open>
  C6, as the claim states it, fails: the walk has no test for the vendor root.  In
  \<open>linked_world\<close> the shim \<^verbatim>\<open>vendor/https/a.com/x/m.ts\<close> is the only file under
  \<^verbatim>\<open>vendor\<close>; removing it empties every directory above it, and the walk removes them
  all, \<^verbatim>\<open>vendor\<close> included, and stops at the working directory, which holds the lock file.
\<close>

theorem remove_one_deletes_vendor_root:
  "exists_path linked_world [''vendor''] \<and>
   is_Done (remove_one [''vendor'', ''https'', ''a.com'', ''x'', ''m.ts''] linked_world) \<and>
   \<not> exists_path
       (world_of (remove_one [''vendor'', ''https'', ''a.com'', ''x'', ''m.ts''] linked_world))
       [''vendor'']"
  by code_simp

text \<open>
  C6, amended.  After the pruner has deleted a marked path \<open>i\<close> that existed, the walk
  deletes the ancestors of \<open>i\<close> from its directory upward as long as they are empty, and
  stops at the first ancestor that has an entry; nothing else changes.  In the model:
  for some depth \<open>k\<close> below the length of \<open>i\<close>, the file system afterwards is the one
  before without \<open>i\<close> and its ancestors of depth above \<open>k\<close> (\<open>chain i k\<close>), removed in
  that order; each removed directory held nothing but the path removed just before it;
  and the ancestor of depth \<open>k\<close>, where the walk stops, has an entry.  The vendor root is
  not exempt: it is deleted like any other ancestor when it is left empty.
\<close>

theorem remove_one_cleanup:
  assumes "exists_path w i" and "remove_one i w = Done w'"
  shows "\<exists>k < length i.
           fs w' = fold AList.delete (chain i k) (fs w) \<and>
           trace w' = trace w @ map EvRemove (chain i k) \<and>
           (\<forall>j. k < j \<and> j < length i \<longrightarrow> set (children w (take j i)) \<subseteq> {take (Suc j) i}) \<and>
           children w' (take k i) \<noteq> []"
proof -
  from assms obtain w1 where
    r: "remove i w = Done w1" and rest: "walk (dirname i) w1 = Done w'"
    by (auto simp: remove_one_def split: res.splits)
  from walk_chain[OF rest] obtain k where
    k: "k \<le> length (dirname i)" and
    fs': "fs w' = fold AList.delete (chain (dirname i) k) (fs w1)" and
    tr': "trace w' = trace w1 @ map EvRemove (chain (dirname i) k)" and
    ch: "\<forall>j. k < j \<and> j \<le> length (dirname i) \<longrightarrow>
           set (children w1 (take j (dirname i))) \<subseteq> {take (Suc j) (dirname i)}" and
    stop: "children w' (take k (dirname i)) \<noteq> []"
    by blast
  from cleanup_step[OF r k fs' tr' ch stop] show ?thesis by blast
qed

theorem remove_one_cleanup_witness:
  "\<exists>k < length [''vendor'', ''https'', ''a.com'', ''x'', ''m.ts''].
     fs \<lparr>fs = [(lock_path, File (Json manifest_one))],
         trace = map EvRemove (chain [''vendor'', ''https'', ''a.com'', ''x'', ''m.ts''] 0)\<rparr> =
       fold AList.delete (chain [''vendor'', ''https'', ''a.com'', ''x'', ''m.ts''] k)
         (fs linked_world)"
proof -
  let ?i = "[''vendor'', ''https'', ''a.com'', ''x'', ''m.ts'']"
  let ?w' = "\<lparr>fs = [(lock_path, File (Json manifest_one))], trace = map EvRemove (chain ?i 0)\<rparr>"
  have 1: "exists_path linked_world ?i" by code_simp
  have 2: "remove_one ?i linked_world = Done ?w'" by code_simp
  from remove_one_cleanup[OF 1 2] show ?thesis by blast
qed

section \<open>Properties of the reconciler\<close>

lemma exists_path_trace [simp]: "exists_path (w\<lparr>trace := t\<rparr>) p = exists_path w p"
  by (simp add: exists_path_def node_at_def)

lemma node_at_trace [simp]: "node_at (w\<lparr>trace := t\<rparr>) p = node_at w p"
  by (simp add: node_at_def)

lemma mkdir_grows:
  assumes "mkdir d w = Done w'" and "exists_path w p"
  shows "exists_path w' p"
  using mkdirs_Done[OF assms(1)[unfolded mkdir_def], of p] assms(2)
  by (auto simp: exists_path_def)

lemma write_file_grows:
  assumes "write_file p c ev w = Done w'"
  shows "exists_path w' p \<and> (\<forall>q. exists_path w q \<longrightarrow> exists_path w' q)"
  using write_file_Done[OF assms] by (auto simp: exists_path_def node_at_update)

lemma fetch_and_link_Done:
  assumes "fetch_and_link env s f w = Done w'"
  shows "exists_path w' f \<and> (\<forall>q. exists_path w q \<longrightarrow> exists_path w' q)"
proof -
  from assms obtain resp where r: "fetch env s = Some resp"
    by (cases "fetch env s") (simp_all add: fetch_and_link_def Let_def)
  with assms have
    "(case mkdir (dirname f) (log_event (EvBody s) (log_event (EvFetch s) w)) of
        Fail e w3 \<Rightarrow> Fail e w3
      | Done w3 \<Rightarrow>
          write_file f (Text (make_link (resp_url resp) (resp_body resp))) (EvWrite f) w3) = Done w'"
    by (simp add: fetch_and_link_def Let_def split: if_splits)
  then have
    "\<exists>w3.
       mkdir (dirname f) (log_event (EvBody s) (log_event (EvFetch s) w)) = Done w3 \<and>
       write_file f (Text (make_link (resp_url resp) (resp_body resp))) (EvWrite f) w3 = Done w'"
    by (cases "mkdir (dirname f) (log_event (EvBody s) (log_event (EvFetch s) w))") simp_all
  then obtain w3 where
    m: "mkdir (dirname f) (log_event (EvBody s) (log_event (EvFetch s) w)) = Done w3" and
    wr: "write_file f (Text (make_link (resp_url resp) (resp_body resp))) (EvWrite f) w3 = Done w'"
    by blast
  have "exists_path w3 q" if "exists_path w q" for q
    using mkdir_grows[OF m, of q] that by (simp add: exists_path_def)
  with write_file_grows[OF wr] show ?thesis by blast
qed

lemma writeLinkFile_Done:
  assumes "writeLinkFile env host ver lf md w = Done w'"
  shows "\<exists>dir. host_dir env host = Some dir \<and> exists_path w' (join env dir md) \<and>
           (\<forall>q. exists_path w q \<longrightarrow> exists_path w' q)"
proof (cases "host_dir env host")
  case None
  with assms show ?thesis by (simp add: writeLinkFile_def)
next
  case (Some dir)
  show ?thesis
  proof (cases "exists_path w (join env dir md) \<and> ver = lockedVersion lf host ver")
    case True
    with Some assms have "w' = w" by (simp add: writeLinkFile_def Let_def)
    with True Some show ?thesis by simp
  next
    case False
    with Some assms have "fetch_and_link env (host @ ver @ md) (join env dir md) w = Done w'"
      by (auto simp: writeLinkFile_def Let_def)
    from fetch_and_link_Done[OF this] Some show ?thesis by simp
  qed
qed

lemma link_all_Done:
  "link_all env host ver lf mds w = Done w' \<Longrightarrow>
   (\<forall>q. exists_path w q \<longrightarrow> exists_path w' q) \<and>
   (\<forall>md \<in> set mds. \<exists>dir. host_dir env host = Some dir \<and> exists_path w' (join env dir md))"
proof (induction mds arbitrary: w)
  case Nil
  then show ?case by simp
next
  case (Cons md mds)
  from Cons.prems obtain w1 where
    a: "writeLinkFile env host ver lf md w = Done w1" and
    b: "link_all env host ver lf mds w1 = Done w'"
    by (auto split: res.splits)
  from writeLinkFile_Done[OF a] Cons.IH[OF b] show ?case by auto
qed

lemma generateLockFile_Done:
  assumes "generateLockFile mods w = Done w'"
  shows "node_at w' lock_path = Some (File (Json mods)) \<and>
         (\<forall>q. exists_path w q \<longrightarrow> exists_path w' q)"
  using write_file_Done[OF assms[unfolded generateLockFile_def]]
  by (auto simp: exists_path_def node_at_update lock_path_def)

lemma link_hosts_Done:
  "link_hosts env mods lf es w = Done w' \<Longrightarrow>
   (\<forall>q. exists_path w q \<longrightarrow> exists_path w' q) \<and>
   (\<forall>(host, v) \<in> set es. \<forall>md \<in> set (modules v).
       \<exists>dir. host_dir env host = Some dir \<and> exists_path w' (join env dir md)) \<and>
   (es \<noteq> [] \<longrightarrow> node_at w' lock_path = Some (File (Json mods)))"
proof (induction es arbitrary: w)
  case Nil
  then show ?case by simp
next
  case (Cons hv es)
  obtain host v where hv: "hv = (host, v)" by (cases hv)
  from Cons.prems hv obtain wa wb where
    a: "link_all env host (version v) lf (modules v) w = Done wa" and
    b: "generateLockFile mods wa = Done wb" and
    c: "link_hosts env mods lf es wb = Done w'"
    by (auto split: res.splits)
  note A = link_all_Done[OF a] and B = generateLockFile_Done[OF b] and C = Cons.IH[OF c]
  have grow: "\<forall>q. exists_path w q \<longrightarrow> exists_path w' q"
    using A B C by blast
  have here: "\<forall>md \<in> set (modules v).
                \<exists>dir. host_dir env host = Some dir \<and> exists_path w' (join env dir md)"
    using A B C by blast
  have lock: "node_at w' lock_path = Some (File (Json mods))"
  proof (cases es)
    case Nil
    with c B show ?thesis by simp
  next
    case (Cons a list)
    with C show ?thesis by simp
  qed
  from grow here lock C hv show ?case by auto
qed

lemma lockedVersion_self:
  "as_Modules mods = Some es \<Longrightarrow> map_of es host = Some v \<Longrightarrow>
   lockedVersion (Some mods) host (version v) = version v"
  by (simp add: lockedVersion_def)

lemma writeLinkFile_fast:
  assumes "host_dir env host = Some dir" and "exists_path w (join env dir md)"
    and "lockedVersion lf host ver = ver"
  shows "writeLinkFile env host ver lf md w = Done w"
  using assms by (simp add: writeLinkFile_def Let_def)

lemma link_all_fast:
  assumes lv: "lockedVersion lf host ver = ver"
  shows "(\<forall>md \<in> set mds. \<exists>dir. host_dir env host = Some dir \<and> exists_path w (join env dir md)) \<Longrightarrow>
   link_all env host ver lf mds w = Done w"
proof (induction mds)
  case Nil
  then show ?case by simp
next
  case (Cons md mds)
  then obtain dir where "host_dir env host = Some dir" "exists_path w (join env dir md)"
    by auto
  from writeLinkFile_fast[OF this lv] Cons show ?case by simp
qed

lemma generateLockFile_same:
  assumes "node_at w lock_path = Some (File (Json mods))"
  shows "generateLockFile mods w = Done (w\<lparr>trace := trace w @ [EvLock]\<rparr>)"
proof -
  from assms have m: "map_of (fs w) lock_path = Some (File (Json mods))"
    by (simp add: node_at_def lock_path_def)
  have "AList.update lock_path (File (Json mods)) (fs w) = fs w"
    using m by (rule update_triv)
  moreover have "node_at w (butlast lock_path) = Some Dir"
    by (simp add: lock_path_def)
  ultimately show ?thesis
    using assms by (simp add: generateLockFile_def write_file_def log_event_def)
qed

lemma link_hosts_fast:
  assumes am: "as_Modules mods = Some all_es" and dist: "distinct (map fst all_es)"
  shows "set es \<subseteq> set all_es \<Longrightarrow>
   (\<forall>(host, v) \<in> set es. \<forall>md \<in> set (modules v).
       \<exists>dir. host_dir env host = Some dir \<and> exists_path w (join env dir md)) \<Longrightarrow>
   node_at w lock_path = Some (File (Json mods)) \<Longrightarrow>
   link_hosts env mods (Some mods) es w =
     Done (w\<lparr>trace := trace w @ replicate (length es) EvLock\<rparr>)"
proof (induction es arbitrary: w)
  case Nil
  then show ?case by simp
next
  case (Cons hv es)
  obtain host v where hv: "hv = (host, v)" by (cases hv)
  with Cons.prems(1) have "(host, v) \<in> set all_es" by simp
  with dist have "map_of all_es host = Some v" by simp
  from lockedVersion_self[OF am this]
  have lv: "lockedVersion (Some mods) host (version v) = version v" .
  have ex: "\<forall>md \<in> set (modules v).
              \<exists>dir. host_dir env host = Some dir \<and> exists_path w (join env dir md)"
    using Cons.prems(2) hv by auto
  have a: "link_all env host (version v) (Some mods) (modules v) w = Done w"
    using link_all_fast[OF lv ex] .
  let ?w1 = "w\<lparr>trace := trace w @ [EvLock]\<rparr>"
  have b: "generateLockFile mods w = Done ?w1"
    using generateLockFile_same[OF Cons.prems(3)] .
  have "link_hosts env mods (Some mods) es ?w1 =
          Done (?w1\<lparr>trace := trace ?w1 @ replicate (length es) EvLock\<rparr>)"
    using Cons.prems by (intro Cons.IH) auto
  with a b hv show ?case
    by (simp add: replicate_app_Cons_same)
qed

lemma map_of_fold_delete:
  "map_of (fold AList.delete ps al) q = (if q \<in> set ps then None else map_of al q)"
  by (induction ps arbitrary: al) (auto simp: delete_conv')

lemma walk_shrinks:
  assumes "walk d w = Done w'" and "node_at w' q = Some n"
  shows "node_at w q = Some n"
proof -
  from walk_chain[OF assms(1)] obtain k where
    "fs w' = fold AList.delete (chain d k) (fs w)" by blast
  with assms(2) show ?thesis
    by (auto simp: node_at_def map_of_fold_delete split: if_splits)
qed

lemma remove_one_Done:
  assumes "remove_one i w = Done w'"
  shows "\<not> exists_path w' i \<and> (\<forall>q n. node_at w' q = Some n \<longrightarrow> node_at w q = Some n)"
proof (cases "exists_path w i")
  case False
  with assms show ?thesis by (simp add: remove_one_def)
next
  case True
  with assms obtain w1 where
    r: "remove i w = Done w1" and rest: "walk (dirname i) w1 = Done w'"
    by (auto simp: remove_one_def split: res.splits)
  from remove_Done[OF r] have i: "i \<noteq> []" and f1: "fs w1 = AList.delete i (fs w)" by auto
  have n1: "node_at w1 q = (if q = [] then Some Dir else if q = i then None else node_at w q)" for q
    using f1 by (simp add: node_at_def delete_conv')
  have "\<not> exists_path w' i"
  proof
    assume "exists_path w' i"
    then obtain n where "node_at w' i = Some n" by (auto simp: exists_path_def)
    from walk_shrinks[OF rest this] n1[of i] i show False by simp
  qed
  moreover have "node_at w q = Some n" if "node_at w' q = Some n" for q n
    using walk_shrinks[OF rest that] n1[of q] by (auto split: if_splits)
  ultimately show ?thesis by blast
qed

lemma remove_all_Done:
  "remove_all files w = Done w' \<Longrightarrow>
   (\<forall>p \<in> set files. \<not> exists_path w' p) \<and>
   (\<forall>q n. node_at w' q = Some n \<longrightarrow> node_at w q = Some n)"
proof (induction files arbitrary: w)
  case Nil
  then show ?case by simp
next
  case (Cons i files)
  from Cons.prems obtain w1 where
    a: "remove_one i w = Done w1" and b: "remove_all files w1 = Done w'"
    by (auto split: res.splits)
  note A = remove_one_Done[OF a] and B = Cons.IH[OF b]
  have "\<not> exists_path w' i"
  proof
    assume "exists_path w' i"
    then obtain n where "node_at w' i = Some n" by (auto simp: exists_path_def)
    with B have "node_at w1 i = Some n" by blast
    with A show False by (simp add: exists_path_def)
  qed
  with A B show ?case by auto
qed

lemma remove_all_noop:
  "(\<forall>p \<in> set files. \<not> exists_path w p) \<Longrightarrow> remove_all files w = Done w"
  by (induction files) (auto simp: remove_one_def)

lemma readLockFile_cong:
  "node_at w lock_path = node_at w' lock_path \<Longrightarrow> readLockFile w = readLockFile w'"
  by (simp add: readLockFile_def exists_path_def)

lemma readLockFile_valid:
  "node_at w lock_path = Some (File (Json mods)) \<Longrightarrow> isDinkModules mods [] = Inr (True, []) \<Longrightarrow>
   readLockFile w = Inr (Some mods)"
  by (simp add: readLockFile_def exists_path_def)

lemma readLockFile_absent:
  "node_at w lock_path = None \<Longrightarrow> readLockFile w = Inr None"
  by (simp add: readLockFile_def exists_path_def)

lemma removedFiles_self:
  assumes dist: "distinct (map fst all_es)"
  shows "set es \<subseteq> set all_es \<Longrightarrow> removedFiles env (Some all_es) es = Inr files \<Longrightarrow> files = []"
proof (induction es arbitrary: files)
  case Nil
  then show ?case by simp
next
  case (Cons kv es)
  obtain k v where kv: "kv = (k, v)" by (cases kv)
  with Cons.prems(1) have "(k, v) \<in> set all_es" by simp
  with dist have m: "map_of all_es k = Some v" by simp
  from Cons.prems(2) kv m obtain dir others where
    r: "removedFiles env (Some all_es) es = Inr others" and
    f: "files = marked env dir (Some v) v @ others"
    by (auto split: option.splits sum.splits)
  from Cons.IH[OF _ r] Cons.prems(1) have "others = []" by simp
  with f show ?case by (simp add: marked_unchanged)
qed

lemma as_Modules_obj:
  "as_Modules (JObj kvs) = Some (map (\<lambda>(k, m). (k, as_Module m)) kvs)"
  by (simp add: as_Modules_def)

lemma fetches_append [simp]: "fetches (t @ u) = fetches t @ fetches u"
  by (simp add: fetches_def)

lemma fetches_locks [simp]: "fetches (replicate n EvLock) = []"
  by (induction n) (simp_all add: fetches_def)

lemma keys_as_Module: "map fst (map (\<lambda>(k, m). (k, as_Module m)) kvs) = map fst kvs"
  by (induction kvs) auto

lemma ensure_unfold:
  assumes "as_Modules mods = Some es" and "readLockFile w = Inr lf"
  shows "ensure env mods w =
     (case deleteRemovedFiles env mods lf w of
        Fail e w1 \<Rightarrow> Fail e w1
      | Done w1 \<Rightarrow> link_hosts env mods lf es w1)"
  using assms by (simp add: ensure_def split: res.splits)

lemma ensure_Done_elim:
  assumes am: "as_Modules mods = Some es" and first: "ensure env mods w = Done w1"
  shows "\<exists>lf wp. readLockFile w = Inr lf \<and> deleteRemovedFiles env mods lf w = Done wp \<and>
           link_hosts env mods lf es wp = Done w1"
proof (cases "readLockFile w")
  case (Inl e)
  with first show ?thesis by (simp add: ensure_def)
next
  case (Inr lf)
  show ?thesis
  proof (cases "deleteRemovedFiles env mods lf w")
    case (Done wp)
    with first Inr am show ?thesis by (simp add: ensure_def)
  next
    case (Fail e wp)
    with first Inr show ?thesis by (simp add: ensure_def)
  qed
qed

lemma deleteRemovedFiles_Done_elim:
  assumes am: "as_Modules mods = Some es"
    and del: "deleteRemovedFiles env mods lf w = Done wp"
  shows "\<exists>lock les files. lf = Some lock \<and> as_Modules lock = Some les \<and>
           removedFiles env (Some es) les = Inr files \<and> remove_all files w = Done wp"
proof (cases lf)
  case None
  with del show ?thesis by (simp add: deleteRemovedFiles_def)
next
  case (Some lock)
  show ?thesis
  proof (cases "as_Modules lock")
    case None
    with del Some show ?thesis by (simp add: deleteRemovedFiles_def)
  next
    case les: (Some les)
    show ?thesis
    proof (cases "removedFiles env (Some es) les")
      case (Inl e)
      with del Some les am show ?thesis by (simp add: deleteRemovedFiles_def)
    next
      case (Inr files)
      with del Some les am show ?thesis by (simp add: deleteRemovedFiles_def)
    qed
  qed
qed


text \<open>Second run, manifest with at least one host.\<close>

lemma second_run_hosts:
  assumes am: "as_Modules mods = Some es" and des: "distinct (map fst es)"
    and valid: "isDinkModules mods [] = Inr (True, [])"
    and ex: "\<forall>(host, v) \<in> set es. \<forall>md \<in> set (modules v).
               \<exists>dir. host_dir env host = Some dir \<and> exists_path w1 (join env dir md)"
    and lock: "node_at w1 lock_path = Some (File (Json mods))"
  shows "(\<exists>e. ensure env mods w1 = Fail e w1 \<and> (\<exists>k \<in> set (map fst es). host_dir env k = None)) \<or>
         ensure env mods w1 = Done (w1\<lparr>trace := trace w1 @ replicate (length es) EvLock\<rparr>)"
proof -
  have rl2: "readLockFile w1 = Inr (Some mods)"
    using readLockFile_valid[OF lock valid] .
  note unf = ensure_unfold[OF am rl2, of env]
  show ?thesis
  proof (cases "removedFiles env (Some es) es")
    case (Inl e)
    then have "deleteRemovedFiles env mods (Some mods) w1 = Fail e w1"
      by (simp add: deleteRemovedFiles_def am)
    then have r: "ensure env mods w1 = Fail e w1"
      by (simp add: unf)
    have "\<exists>k \<in> set (map fst es). host_dir env k = None"
    proof (rule ccontr)
      assume a: "\<not> (\<exists>k \<in> set (map fst es). host_dir env k = None)"
      have "host_dir env k \<noteq> None" if "(k, v) \<in> set es" for k v
      proof -
        from that have "k \<in> fst ` set es" by force
        with a show ?thesis by auto
      qed
      then have "\<exists>files. removedFiles env (Some es) es = Inr files"
        by (rule removedFiles_total)
      with Inl show False by simp
    qed
    with r show ?thesis by blast
  next
    case (Inr files)
    have "set es \<subseteq> set es" by simp
    from removedFiles_self[OF des this Inr] have "files = []" .
    with Inr have d2: "deleteRemovedFiles env mods (Some mods) w1 = Done w1"
      by (simp add: deleteRemovedFiles_def am)
    have "set es \<subseteq> set es" by simp
    from link_hosts_fast[OF am des this ex lock]
    have "link_hosts env mods (Some mods) es w1 =
            Done (w1\<lparr>trace := trace w1 @ replicate (length es) EvLock\<rparr>)" .
    with d2 have "ensure env mods w1 =
            Done (w1\<lparr>trace := trace w1 @ replicate (length es) EvLock\<rparr>)"
      by (simp add: unf)
    then show ?thesis by blast
  qed
qed

text \<open>Second run, manifest without hosts: the lock file of the first run is still the old one.\<close>

lemma second_run_empty:
  assumes am: "as_Modules mods = Some []"
    and rl: "readLockFile w = Inr lf"
    and del: "deleteRemovedFiles env mods lf w = Done w1"
  shows "(ensure env mods w1 = Fail TypeError w1 \<and> \<not> exists_path w1 lock_path) \<or>
         ensure env mods w1 = Done w1"
proof -
  from deleteRemovedFiles_Done_elim[OF am del] obtain lock les files where
    lf: "lf = Some lock" and al: "as_Modules lock = Some les" and
    rf: "removedFiles env (Some []) les = Inr files" and
    ra: "remove_all files w = Done w1"
    by blast
  from remove_all_Done[OF ra] have
    gone: "\<forall>p \<in> set files. \<not> exists_path w1 p" and
    shr: "\<forall>q n. node_at w1 q = Some n \<longrightarrow> node_at w q = Some n"
    by blast+
  show ?thesis
  proof (cases "node_at w1 lock_path")
    case None
    then have "readLockFile w1 = Inr None" by (rule readLockFile_absent)
    from ensure_unfold[OF am this, of env]
    have "ensure env mods w1 = Fail TypeError w1"
      by (simp add: deleteRemovedFiles_def)
    with None show ?thesis by (simp add: exists_path_def)
  next
    case (Some n)
    with shr have "node_at w lock_path = node_at w1 lock_path" by simp
    from readLockFile_cong[OF this] rl lf have r1: "readLockFile w1 = Inr (Some lock)" by simp
    have "deleteRemovedFiles env mods (Some lock) w1 = Done w1"
      using al rf remove_all_noop[OF gone] by (simp add: deleteRemovedFiles_def am)
    with ensure_unfold[OF am r1, of env] have "ensure env mods w1 = Done w1" by simp
    then show ?thesis by blast
  qed
qed

text \<open>
  C4.  Let the manifest be a JSON object with distinct keys that the validator accepts,
  and let a first run of \<open>ensure\<close> from any state \<open>w\<close> return with state \<open>w1\<close>.  A second
  run with the same manifest from \<open>w1\<close> (the lock state the first run left, the same
  network, nothing else changed) fetches nothing, and leaves every file as it is, the lock
  file included: each link takes the fast path, and the lock file is rewritten with the
  same document.  The second run returns normally when every host of the manifest is a
  URL and the lock file exists after the first run; otherwise it throws before it
  fetches or writes anything.
\<close>

theorem ensure_idempotent:
  assumes valid: "isDinkModules (JObj kvs) [] = Inr (True, [])"
    and dist: "distinct (map fst kvs)"
    and first: "ensure env (JObj kvs) w = Done w1"
  shows "fs (world_of (ensure env (JObj kvs) w1)) = fs w1 \<and>
         fetches (trace (world_of (ensure env (JObj kvs) w1))) = fetches (trace w1) \<and>
         ((\<forall>k \<in> set (map fst kvs). host_dir env k \<noteq> None) \<and> exists_path w1 lock_path \<longrightarrow>
            is_Done (ensure env (JObj kvs) w1))"
proof -
  define mods where "mods = JObj kvs"
  define es where "es = map (\<lambda>(k, m). (k, as_Module m)) kvs"
  have am: "as_Modules mods = Some es"
    unfolding mods_def es_def by (rule as_Modules_obj)
  have keys: "map fst es = map fst kvs"
    unfolding es_def by (rule keys_as_Module)
  have des: "distinct (map fst es)" unfolding keys using dist .
  from ensure_Done_elim[OF am first[folded mods_def]] obtain lf wp where
    rl: "readLockFile w = Inr lf" and
    del: "deleteRemovedFiles env mods lf w = Done wp" and
    lh: "link_hosts env mods lf es wp = Done w1"
    by blast
  have "fs (world_of (ensure env mods w1)) = fs w1 \<and>
         fetches (trace (world_of (ensure env mods w1))) = fetches (trace w1) \<and>
         ((\<forall>k \<in> set (map fst kvs). host_dir env k \<noteq> None) \<and> exists_path w1 lock_path \<longrightarrow>
            is_Done (ensure env mods w1))"
  proof (cases "es = []")
    case False
    from link_hosts_Done[OF lh] False have
      ex: "\<forall>(host, v) \<in> set es. \<forall>md \<in> set (modules v).
             \<exists>dir. host_dir env host = Some dir \<and> exists_path w1 (join env dir md)" and
      lock: "node_at w1 lock_path = Some (File (Json mods))"
      by blast+
    from second_run_hosts[OF am des valid[folded mods_def] ex lock]
    show ?thesis
    proof
      assume "\<exists>e. ensure env mods w1 = Fail e w1 \<and> (\<exists>k \<in> set (map fst es). host_dir env k = None)"
      then obtain e where "ensure env mods w1 = Fail e w1"
        and "\<exists>k \<in> set (map fst kvs). host_dir env k = None"
        unfolding keys by blast
      then show ?thesis by auto
    next
      assume "ensure env mods w1 = Done (w1\<lparr>trace := trace w1 @ replicate (length es) EvLock\<rparr>)"
      then show ?thesis by simp
    qed
  next
    case True
    with lh have "w1 = wp" by simp
    with del have del1: "deleteRemovedFiles env mods lf w = Done w1" by simp
    from second_run_empty[OF am[unfolded True] rl del1]
    show ?thesis
    proof
      assume "ensure env mods w1 = Fail TypeError w1 \<and> \<not> exists_path w1 lock_path"
      then show ?thesis by simp
    next
      assume "ensure env mods w1 = Done w1"
      then show ?thesis by simp
    qed
  qed
  then show ?thesis unfolding mods_def .
qed

text \<open>With a manifest that has no host, a run reads the lock file and prunes, and does
  nothing else: the lock file is not written.\<close>

lemma ensure_no_hosts:
  "ensure env (JObj []) w =
     (case readLockFile w of
        Inl e \<Rightarrow> Fail e w
      | Inr lockFile \<Rightarrow> deleteRemovedFiles env (JObj []) lockFile w)"
  by (simp add: ensure_def as_Modules_def split: sum.splits res.splits)

lemma is_Done_world_of: "is_Done r \<Longrightarrow> r = Done (world_of r)"
  by (cases r) simp_all

theorem ensure_idempotent_witness:
  "fs (world_of (ensure (test_env net_plain) manifest_one
         (world_of (ensure (test_env net_plain) manifest_one fresh_world)))) =
     fs (world_of (ensure (test_env net_plain) manifest_one fresh_world)) \<and>
   fetches (trace (world_of (ensure (test_env net_plain) manifest_one
         (world_of (ensure (test_env net_plain) manifest_one fresh_world))))) =
     [''https://a.com/x/v1/m.ts''] \<and>
   is_Done (ensure (test_env net_plain) manifest_one
         (world_of (ensure (test_env net_plain) manifest_one fresh_world)))"
proof -
  let ?kvs = "[(''https://a.com/x/'', json_entry ''v1'' [''/m.ts''])]"
  let ?env = "test_env net_plain"
  let ?w1 = "world_of (ensure ?env (JObj ?kvs) fresh_world)"
  have valid: "isDinkModules (JObj ?kvs) [] = Inr (True, [])" by code_simp
  have dist: "distinct (map fst ?kvs)" by simp
  have "is_Done (ensure ?env (JObj ?kvs) fresh_world)" by code_simp
  then have first: "ensure ?env (JObj ?kvs) fresh_world = Done ?w1"
    by (rule is_Done_world_of)
  have hosts: "\<forall>k \<in> set (map fst ?kvs). host_dir ?env k \<noteq> None"
    by (simp add: host_dir_example)
  have lock: "exists_path ?w1 lock_path" by code_simp
  have f1: "fetches (trace ?w1) = [''https://a.com/x/v1/m.ts'']" by code_simp
  from ensure_idempotent[OF valid dist first] hosts lock f1
  show ?thesis unfolding manifest_one_def by simp
qed

text \<open>
  C3.  The claim is that a run without a lock file is a first run that links every
  module and completes.  \<open>readLockFile\<close> returns \<^verbatim>\<open>undefined\<close> when the file does not exist,
  and \<open>deleteRemovedFiles\<close> passes it to \<^verbatim>\<open>Object.entries\<close>, which throws a TypeError:
  for every manifest the run fails before it deletes, fetches or writes anything.  (The
  link writer guards the same value with \<^verbatim>\<open>lockFile && ...\<close>; the pruner does not.)
\<close>

theorem ensure_without_lock_file:
  assumes "\<not> exists_path w lock_path"
  shows "ensure env mods w = Fail TypeError w"
  using assms by (simp add: ensure_def readLockFile_def deleteRemovedFiles_def)

theorem ensure_without_lock_file_witness:
  "ensure (test_env net_plain) manifest_one empty_world = Fail TypeError empty_world"
proof -
  have "\<not> exists_path empty_world lock_path" by code_simp
  from ensure_without_lock_file[OF this] show ?thesis .
qed

text \<open>
  C1.  The claim is that a run in which a link fails writes no lock file.  The lock file
  is written in the body of the loop over the hosts, after the links of each host.  With
  \<open>manifest_two\<close>, whose first host links and whose second host gets a 404, the run
  fails, and the lock file, \<^verbatim>\<open>{}\<close> before the run, holds the whole manifest after it:
  it was written once, after the first host.
\<close>

theorem ensure_failed_run_writes_lock:
  "node_at fresh_world lock_path = Some (File (Json (JObj []))) \<and>
   ensure (test_env net_a_only) manifest_two fresh_world =
     Fail (FetchFailed ''https://b.com/v1/n.ts'')
       (world_of (ensure (test_env net_a_only) manifest_two fresh_world)) \<and>
   node_at (world_of (ensure (test_env net_a_only) manifest_two fresh_world)) lock_path =
     Some (File (Json manifest_two)) \<and>
   lock_writes (trace (world_of (ensure (test_env net_a_only) manifest_two fresh_world))) = 1"
  by code_simp

text \<open>
  C2.  The claim is that after a successful run the lock state is the manifest, also for
  the empty manifest \<^verbatim>\<open>{}\<close>.  The only write of the lock file is in the body of the loop
  over the hosts, which the empty manifest never enters: from \<open>linked_world\<close> the run with
  \<^verbatim>\<open>{}\<close> succeeds, prunes the shim, and leaves the old lock state \<open>manifest_one\<close> on disk.
\<close>

theorem ensure_empty_manifest_keeps_lock:
  "isDinkModules (JObj []) [] = Inr (True, []) \<and>
   is_Done (ensure (test_env no_network) (JObj []) linked_world) \<and>
   node_at (world_of (ensure (test_env no_network) (JObj []) linked_world)) lock_path =
     Some (File (Json manifest_one)) \<and>
   manifest_one \<noteq> JObj [] \<and>
   lock_writes (trace (world_of (ensure (test_env no_network) (JObj []) linked_world))) = 0"
  by code_simp

end
